theory Spec2Isabelle
  imports Complex_Main
begin

section \<open>Grid model\<close>

text \<open>
  The arrow puzzle keeps its board as an array of rows; a cell is either \<open>null\<close> or an
  object \<open>{ id, dir, len, head }\<close>. Piece ids come from a counter that starts at 1, so
  they are natural numbers; \<open>len\<close> is computed with \<open>Math.floor\<close> and is an integer.
\<close>

datatype dir = U | D | L | R

record cell =
  cell_id :: nat
  cell_dir :: dir
  cell_len :: int
  cell_head :: bool

type_synonym grid = "cell option list list"

datatype error = TypeError

text \<open>\<open>DIR_VECTORS = { U: [-1, 0], D: [1, 0], L: [0, -1], R: [0, 1] }\<close>\<close>

fun DIR_VECTORS :: "dir \<Rightarrow> int \<times> int" where
  "DIR_VECTORS U = (-1, 0)"
| "DIR_VECTORS D = (1, 0)"
| "DIR_VECTORS L = (0, -1)"
| "DIR_VECTORS R = (0, 1)"

text \<open>
  JavaScript array indexing \<open>xs[i]\<close>: an index past the end reads \<open>undefined\<close>,
  which is \<open>None\<close> here.
\<close>

definition idx :: "'a list \<Rightarrow> nat \<Rightarrow> 'a option" where
  "idx xs i = (if i < length xs then Some (xs ! i) else None)"

text \<open>
  \<open>g[r][c]\<close>: reading a column of a missing row throws a TypeError. Inside an existing
  row a missing column reads \<open>undefined\<close>; every caller below only tests the value for
  truthiness, where \<open>undefined\<close> and \<open>null\<close> agree, so both are \<open>None\<close>.
\<close>

definition cell_at :: "grid \<Rightarrow> nat \<Rightarrow> nat \<Rightarrow> error + cell option" where
  "cell_at g r c =
     (case idx g r of
        None \<Rightarrow> Inl TypeError
      | Some row \<Rightarrow> Inr (case idx row c of None \<Rightarrow> None | Some x \<Rightarrow> x))"

text \<open>\<open>cloneGrid\<close> / \<open>cloneState\<close>: a fresh array of fresh rows of copied cells.\<close>

definition cloneGrid :: "grid \<Rightarrow> grid" where
  "cloneGrid g = map (\<lambda>row. map (\<lambda>c. case c of Some x \<Rightarrow> Some x | None \<Rightarrow> None) row) g"

definition allEmpty :: "grid \<Rightarrow> bool" where
  "allEmpty g = list_all (\<lambda>row. list_all (\<lambda>c. c = None) row) g"

section \<open>Exit predicate\<close>

text \<open>
  The \<open>while\<close> loop of \<open>canExit\<close>. \<open>H = grid.length\<close> is read off the grid, which the
  loop never changes; \<open>W = grid[0].length\<close> is passed in. The walk moves by the unit
  vector of the direction, so it leaves the \<open>H \<times> W\<close> box after finitely many steps.
\<close>

function canExit_loop :: "grid \<Rightarrow> int \<Rightarrow> nat \<Rightarrow> dir \<Rightarrow> int \<Rightarrow> int \<Rightarrow> bool" where
  "canExit_loop grid W i d rr cc =
     (if 0 \<le> rr \<and> rr < int (length grid) \<and> 0 \<le> cc \<and> cc < W then
        (case idx (grid ! nat rr) (nat cc) of
           Some (Some other) \<Rightarrow>
             if cell_id other \<noteq> i then False
             else canExit_loop grid W i d (rr + fst (DIR_VECTORS d)) (cc + snd (DIR_VECTORS d))
         | _ \<Rightarrow> canExit_loop grid W i d (rr + fst (DIR_VECTORS d)) (cc + snd (DIR_VECTORS d)))
      else True)"
  by pat_completeness auto
termination
  by (relation "measure (\<lambda>(grid, W, i, d, rr, cc).
        case d of U \<Rightarrow> nat (rr + 1) | D \<Rightarrow> nat (int (length grid) - rr)
                | L \<Rightarrow> nat (cc + 1) | R \<Rightarrow> nat (W - cc))")
     (auto split: dir.splits)

declare canExit_loop.simps [simp del]

definition canExit :: "grid \<Rightarrow> nat \<Rightarrow> nat \<Rightarrow> error + bool" where
  "canExit grid r c =
     (case cell_at grid r c of
        Inl e \<Rightarrow> Inl e
      | Inr None \<Rightarrow> Inr False
      | Inr (Some cell) \<Rightarrow>
          if \<not> cell_head cell then Inr False
          else (case grid of
                  [] \<Rightarrow> Inl TypeError
                | row0 # _ \<Rightarrow>
                    Inr (canExit_loop grid (int (length row0)) (cell_id cell) (cell_dir cell)
                           (int r + fst (DIR_VECTORS (cell_dir cell)))
                           (int c + snd (DIR_VECTORS (cell_dir cell))))))"

section \<open>State canonicalizer\<close>

text \<open>
  \<open>serializeGrid\<close> maps every cell to its id (0 for an empty cell), joins the numbers of a
  row with commas and the rows with semicolons. \<open>Array.prototype.join\<close> prints a number
  in decimal.
\<close>

definition digit_char :: "nat \<Rightarrow> char" where
  "digit_char n = ''0123456789'' ! n"

function string_of_nat :: "nat \<Rightarrow> string" where
  "string_of_nat n =
     (if n < 10 then [digit_char n] else string_of_nat (n div 10) @ [digit_char (n mod 10)])"
  by pat_completeness auto
termination
  by (relation "measure (\<lambda>n. n)") auto

declare string_of_nat.simps [simp del]

fun join :: "char \<Rightarrow> string list \<Rightarrow> string" where
  "join sep [] = []"
| "join sep [x] = x"
| "join sep (x # y # ys) = x @ sep # join sep (y # ys)"

definition cell_code :: "cell option \<Rightarrow> nat" where
  "cell_code c = (case c of Some x \<Rightarrow> cell_id x | None \<Rightarrow> 0)"

definition serializeGrid :: "grid \<Rightarrow> string" where
  "serializeGrid g =
     join (CHR '';'') (map (\<lambda>row. join (CHR '','') (map (\<lambda>c. string_of_nat (cell_code c)) row)) g)"

section \<open>Bounded solver\<close>

text \<open>
  \<open>removeId\<close> clones the grid and clears, inside the \<open>rows \<times> cols\<close> box of the start grid,
  every cell that carries the id. \<open>rows\<close> and \<open>cols\<close> are the closure variables of
  \<open>findSolutionLimited\<close>.
\<close>

definition removeId_cell :: "nat \<Rightarrow> nat \<Rightarrow> nat \<Rightarrow> error + grid \<Rightarrow> error + grid" where
  "removeId_cell i r c acc =
     (case acc of
        Inl e \<Rightarrow> Inl e
      | Inr ng \<Rightarrow>
          (case cell_at ng r c of
             Inl e \<Rightarrow> Inl e
           | Inr None \<Rightarrow> Inr ng
           | Inr (Some x) \<Rightarrow>
               if cell_id x = i then Inr (ng[r := (ng ! r)[c := None]]) else Inr ng))"

definition removeId :: "nat \<Rightarrow> nat \<Rightarrow> grid \<Rightarrow> nat \<Rightarrow> error + grid" where
  "removeId rows cols g i =
     fold (\<lambda>r acc. fold (\<lambda>c. removeId_cell i r c) [0..<cols] acc) [0..<rows]
       (Inr (cloneGrid g))"

text \<open>The scan for removable heads: \<open>if (cell && cell.head && canExit(g, r, c)) moves.push([r, c])\<close>.\<close>

definition find_moves_cell ::
  "grid \<Rightarrow> nat \<Rightarrow> nat \<Rightarrow> error + (nat \<times> nat) list \<Rightarrow> error + (nat \<times> nat) list" where
  "find_moves_cell g r c acc =
     (case acc of
        Inl e \<Rightarrow> Inl e
      | Inr moves \<Rightarrow>
          (case cell_at g r c of
             Inl e \<Rightarrow> Inl e
           | Inr None \<Rightarrow> Inr moves
           | Inr (Some x) \<Rightarrow>
               if cell_head x then
                 (case canExit g r c of
                    Inl e \<Rightarrow> Inl e
                  | Inr b \<Rightarrow> Inr (if b then moves @ [(r, c)] else moves))
               else Inr moves))"

definition find_moves :: "nat \<Rightarrow> nat \<Rightarrow> grid \<Rightarrow> error + (nat \<times> nat) list" where
  "find_moves rows cols g =
     fold (\<lambda>r acc. fold (\<lambda>c. find_moves_cell g r c) [0..<cols] acc) [0..<rows] (Inr [])"

record node =
  node_grid :: grid
  node_seq :: "(nat \<times> nat) list"

record bfs_state =
  visited :: "string set"
  queue :: "node list"
  states :: nat

text \<open>
  The body of \<open>for (const [r, c] of moves)\<close>. Reading \<open>g[r][c].id\<close> of an empty cell
  would throw.
\<close>

definition expand_move ::
  "nat \<Rightarrow> nat \<Rightarrow> node \<Rightarrow> nat \<times> nat \<Rightarrow> error + string set \<times> node list
     \<Rightarrow> error + string set \<times> node list" where
  "expand_move rows cols nd m acc =
     (case acc of
        Inl e \<Rightarrow> Inl e
      | Inr (vis, q) \<Rightarrow>
          (case cell_at (node_grid nd) (fst m) (snd m) of
             Inl e \<Rightarrow> Inl e
           | Inr None \<Rightarrow> Inl TypeError
           | Inr (Some x) \<Rightarrow>
               (case removeId rows cols (node_grid nd) (cell_id x) of
                  Inl e \<Rightarrow> Inl e
                | Inr ng \<Rightarrow>
                    if serializeGrid ng \<in> vis then Inr (vis, q)
                    else Inr (insert (serializeGrid ng) vis,
                              q @ [\<lparr>node_grid = ng, node_seq = node_seq nd @ [m]\<rparr>]))))"

text \<open>
  What a run of the solver gives back: a thrown error, or the returned value (\<open>None\<close> is
  \<open>null\<close>) together with the final value of the local counter \<open>states\<close>, the number of
  nodes taken off the queue.
\<close>

type_synonym run = "error + (nat \<times> nat) list option \<times> nat"

text \<open>One iteration of \<open>while (queue.length > 0)\<close>: either the function returns, or the loop goes on.\<close>

definition bfs_step :: "nat \<Rightarrow> nat \<Rightarrow> int \<Rightarrow> bfs_state \<Rightarrow> run + bfs_state" where
  "bfs_step rows cols maxStates st =
     (case queue st of
        [] \<Rightarrow> Inl (Inr (None, states st))
      | nd # rest \<Rightarrow>
          if int (states st + 1) > maxStates then Inl (Inr (None, states st + 1))
          else if allEmpty (node_grid nd) then Inl (Inr (Some (node_seq nd), states st + 1))
          else
            (case find_moves rows cols (node_grid nd) of
               Inl e \<Rightarrow> Inl (Inl e)
             | Inr moves \<Rightarrow>
                 (case fold (expand_move rows cols nd) moves (Inr (visited st, rest)) of
                    Inl e \<Rightarrow> Inl (Inl e)
                  | Inr (vis, q) \<Rightarrow>
                      Inr \<lparr>visited = vis, queue = q, states = states st + 1\<rparr>)))"

lemma bfs_step_states:
  "bfs_step rows cols maxStates st = Inr st' \<Longrightarrow>
     states st' = states st + 1 \<and> int (states st') \<le> maxStates"
  by (auto simp: bfs_step_def split: list.splits if_splits sum.splits prod.splits)

function bfs_loop :: "nat \<Rightarrow> nat \<Rightarrow> int \<Rightarrow> bfs_state \<Rightarrow> run" where
  "bfs_loop rows cols maxStates st =
     (case bfs_step rows cols maxStates st of
        Inl res \<Rightarrow> res
      | Inr st' \<Rightarrow> bfs_loop rows cols maxStates st')"
  by pat_completeness auto
termination
proof (relation "measure (\<lambda>(rows, cols, maxStates, st). nat (maxStates - int (states st)))")
  show "wf (measure (\<lambda>(rows, cols, maxStates, st). nat (maxStates - int (states st))))"
    by simp
next
  fix rows cols :: nat and maxStates :: int and st st' :: bfs_state
  assume "bfs_step rows cols maxStates st = Inr st'"
  from bfs_step_states [OF this]
  show "((rows, cols, maxStates, st'), (rows, cols, maxStates, st))
          \<in> measure (\<lambda>(rows, cols, maxStates, st). nat (maxStates - int (states st)))"
    by simp
qed

declare bfs_loop.simps [simp del]

definition findSolutionLimited_run :: "grid \<Rightarrow> int \<Rightarrow> run" where
  "findSolutionLimited_run startGrid maxStates =
     (case startGrid of
        [] \<Rightarrow> Inl TypeError
      | row0 # _ \<Rightarrow>
          bfs_loop (length startGrid) (length row0) maxStates
            \<lparr>visited = {serializeGrid startGrid},
             queue = [\<lparr>node_grid = cloneGrid startGrid, node_seq = []\<rparr>],
             states = 0\<rparr>)"

definition findSolutionLimited :: "grid \<Rightarrow> int \<Rightarrow> error + (nat \<times> nat) list option" where
  "findSolutionLimited startGrid maxStates =
     (case findSolutionLimited_run startGrid maxStates of
        Inl e \<Rightarrow> Inl e
      | Inr (res, n) \<Rightarrow> Inr res)"

section \<open>Level generator\<close>

text \<open>
  \<open>generateRandomLevelAsync\<close>. The calls of \<open>Math.random()\<close> are modelled by a sequence
  \<open>rnd\<close> of reals and the number of draws made so far; doubles are idealised as reals.
  The \<open>await\<close> every 20 attempts only yields to the scheduler and is not modelled.
  \<open>rows\<close>, \<open>cols\<close> and \<open>maxAttempts\<close> are natural numbers, \<open>density\<close> and \<open>maxLen\<close> reals.
\<close>

record gen_state =
  rnd_pos :: nat
  idCounter :: nat

definition dirs :: "dir list" where
  "dirs = [U, D, L, R]"

text \<open>
  The loop \<open>for (let k = 0; k < len; k++)\<close> that collects the cells of a piece behind its
  head; \<open>None\<close> is \<open>ok = false\<close>. The grid \<open>g\<close> is the \<open>rows \<times> cols\<close> array built by
  the attempt, and \<open>g[rr][cc]\<close> is read only after the bounds check.
\<close>

fun piece_positions ::
  "grid \<Rightarrow> nat \<Rightarrow> nat \<Rightarrow> nat \<Rightarrow> nat \<Rightarrow> int \<times> int \<Rightarrow> nat list \<Rightarrow> (nat \<times> nat) list option" where
  "piece_positions g rows cols r c v [] = Some []"
| "piece_positions g rows cols r c v (k # ks) =
     (let rr = int r - fst v * int k; cc = int c - snd v * int k in
      if rr < 0 \<or> rr \<ge> int rows \<or> cc < 0 \<or> cc \<ge> int cols then None
      else if g ! nat rr ! nat cc \<noteq> None then None
      else map_option (\<lambda>ps. (nat rr, nat cc) # ps) (piece_positions g rows cols r c v ks))"

text \<open>\<open>g[rr][cc] = { id, dir, len, head: k === 0 }\<close> for every collected position.\<close>

definition place_piece :: "grid \<Rightarrow> (nat \<times> nat) list \<Rightarrow> nat \<Rightarrow> dir \<Rightarrow> int \<Rightarrow> grid" where
  "place_piece g positions i d len =
     fold (\<lambda>k g'. g'[fst (positions ! k) :=
                      (g' ! fst (positions ! k))[snd (positions ! k) :=
                         Some \<lparr>cell_id = i, cell_dir = d, cell_len = len, cell_head = (k = 0)\<rparr>]])
       [0..<length positions] g"

text \<open>
  The body of the scan over \<open>(r, c)\<close>. Three draws: one against \<open>density\<close>, one for the
  direction, one for the length. \<open>dirs[j]\<close> with \<open>j\<close> out of range is \<open>undefined\<close> and
  destructuring \<open>DIR_VECTORS[undefined]\<close> throws.
\<close>

definition gen_cell ::
  "(nat \<Rightarrow> real) \<Rightarrow> nat \<Rightarrow> nat \<Rightarrow> real \<Rightarrow> real \<Rightarrow> nat \<Rightarrow> nat
     \<Rightarrow> error + grid \<times> gen_state \<Rightarrow> error + grid \<times> gen_state" where
  "gen_cell rnd rows cols density maxLen r c acc =
     (case acc of
        Inl e \<Rightarrow> Inl e
      | Inr (g, st) \<Rightarrow>
          if g ! r ! c \<noteq> None then Inr (g, st)
          else if rnd (rnd_pos st) \<ge> density then Inr (g, st\<lparr>rnd_pos := rnd_pos st + 1\<rparr>)
          else
            (let j = \<lfloor>rnd (rnd_pos st + 1) * real (length dirs)\<rfloor>;
                 len = 1 + \<lfloor>rnd (rnd_pos st + 2) * maxLen\<rfloor>;
                 st' = st\<lparr>rnd_pos := rnd_pos st + 3\<rparr>
             in if j < 0 \<or> int (length dirs) \<le> j then Inl TypeError
                else
                  (case piece_positions g rows cols r c (DIR_VECTORS (dirs ! nat j)) [0..<nat len] of
                     None \<Rightarrow> Inr (g, st')
                   | Some positions \<Rightarrow>
                       Inr (place_piece g positions (idCounter st') (dirs ! nat j) len,
                            st'\<lparr>idCounter := idCounter st' + 1\<rparr>))))"

definition build_candidate ::
  "(nat \<Rightarrow> real) \<Rightarrow> nat \<Rightarrow> nat \<Rightarrow> real \<Rightarrow> real \<Rightarrow> gen_state \<Rightarrow> error + grid \<times> gen_state" where
  "build_candidate rnd rows cols density maxLen st =
     fold (\<lambda>r acc. fold (\<lambda>c. gen_cell rnd rows cols density maxLen r c) [0..<cols] acc)
       [0..<rows] (Inr (replicate rows (replicate cols None), st))"

text \<open>\<open>g.some((row) => row.some(Boolean))\<close>\<close>

definition hasArrow :: "grid \<Rightarrow> bool" where
  "hasArrow g = list_ex (\<lambda>row. list_ex (\<lambda>c. c \<noteq> None) row) g"

text \<open>
  \<open>hasArrow && g.some((row, r) => row.some((cell, c) => cell && cell.head && canExit(g, r, c)))\<close>;
  \<open>canExit\<close> cannot throw here, the row index is inside the grid.
\<close>

definition hasImmediateExit :: "grid \<Rightarrow> bool" where
  "hasImmediateExit g =
     (hasArrow g \<and>
      list_ex (\<lambda>r. list_ex (\<lambda>c. case g ! r ! c of
                                    Some x \<Rightarrow> cell_head x \<and> canExit g r c = Inr True
                                  | None \<Rightarrow> False)
                      [0..<length (g ! r)])
        [0..<length g])"

text \<open>
  The attempt loop, counted by the attempts that remain. \<open>Inr None\<close>: every attempt was
  rejected. A solution, even the empty array, is truthy.
\<close>

fun gen_attempts ::
  "(nat \<Rightarrow> real) \<Rightarrow> nat \<Rightarrow> nat \<Rightarrow> real \<Rightarrow> real \<Rightarrow> nat \<Rightarrow> gen_state \<Rightarrow> error + grid option" where
  "gen_attempts rnd rows cols density maxLen 0 st = Inr None"
| "gen_attempts rnd rows cols density maxLen (Suc n) st =
     (case build_candidate rnd rows cols density maxLen st of
        Inl e \<Rightarrow> Inl e
      | Inr (g, st') \<Rightarrow>
          if hasArrow g \<and> hasImmediateExit g then
            (case findSolutionLimited g 20000 of
               Inl e \<Rightarrow> Inl e
             | Inr (Some sol) \<Rightarrow> Inr (Some g)
             | Inr None \<Rightarrow> gen_attempts rnd rows cols density maxLen n st')
          else gen_attempts rnd rows cols density maxLen n st')"

text \<open>The fallback layout.\<close>

definition fallback :: "nat \<Rightarrow> nat \<Rightarrow> grid" where
  "fallback rows cols =
     (let fb = replicate rows (replicate cols None) in
      if rows \<ge> 1 \<and> cols \<ge> 2 then
        (let fb1 = fb[0 := (fb ! 0)[0 :=
                     Some \<lparr>cell_id = 1, cell_dir = R, cell_len = 1, cell_head = True\<rparr>]]
         in if cols > 1
            then fb1[0 := (fb1 ! 0)[1 :=
                     Some \<lparr>cell_id = 1, cell_dir = R, cell_len = 1, cell_head = False\<rparr>]]
            else fb1)
      else fb)"

definition generateRandomLevelAsync ::
  "(nat \<Rightarrow> real) \<Rightarrow> nat \<Rightarrow> nat \<Rightarrow> real \<Rightarrow> real \<Rightarrow> nat \<Rightarrow> error + grid" where
  "generateRandomLevelAsync rnd rows cols density maxLen maxAttempts =
     (case gen_attempts rnd rows cols density maxLen maxAttempts \<lparr>rnd_pos = 0, idCounter = 1\<rparr> of
        Inl e \<Rightarrow> Inl e
      | Inr (Some g) \<Rightarrow> Inr g
      | Inr None \<Rightarrow> Inr (fallback rows cols))"

section \<open>The solver on a store of row arrays\<close>

text \<open>
  The solver once more, with the row arrays as mutable objects in a store, to follow which
  arrays the assignment \<open>ng[r][c] = null\<close> of \<open>removeId\<close> can reach. A grid is the list
  of the addresses of its rows: the solver never assigns to an element of an outer array
  or to a field of a cell object, so outer arrays and cells stay values. \<open>next_free\<close> is
  the next unused address; every array literal and every \<open>map\<close> allocates there.
  Functions that only read (\<open>serializeGrid\<close>, \<open>canExit\<close>, the goal test and the scan for
  moves) are run on the grid read out of the store.
\<close>

record heap =
  mem :: "nat \<Rightarrow> cell option list"
  next_free :: nat

definition deref :: "heap \<Rightarrow> nat list \<Rightarrow> grid" where
  "deref h g = map (mem h) g"

definition alloc_row :: "heap \<Rightarrow> cell option list \<Rightarrow> heap \<times> nat" where
  "alloc_row h row =
     (h\<lparr>mem := (mem h)(next_free h := row), next_free := next_free h + 1\<rparr>, next_free h)"

text \<open>\<open>g.map((r) => r.map((c) => (c ? { ...c } : null)))\<close>: one fresh row for every row.\<close>

fun cloneState_h :: "heap \<Rightarrow> nat list \<Rightarrow> heap \<times> nat list" where
  "cloneState_h h [] = (h, [])"
| "cloneState_h h (a # as) =
     (case alloc_row h (map (\<lambda>c. case c of Some x \<Rightarrow> Some x | None \<Rightarrow> None) (mem h a)) of
        (h1, a') \<Rightarrow> (case cloneState_h h1 as of (h2, as') \<Rightarrow> (h2, a' # as')))"

definition removeId_cell_h :: "nat \<Rightarrow> nat list \<Rightarrow> nat \<Rightarrow> nat \<Rightarrow> error + heap \<Rightarrow> error + heap" where
  "removeId_cell_h i ng r c acc =
     (case acc of
        Inl e \<Rightarrow> Inl e
      | Inr h \<Rightarrow>
          (case idx ng r of
             None \<Rightarrow> Inl TypeError
           | Some a \<Rightarrow>
               (case idx (mem h a) c of
                  Some (Some x) \<Rightarrow>
                    if cell_id x = i then Inr (h\<lparr>mem := (mem h)(a := (mem h a)[c := None])\<rparr>)
                    else Inr h
                | _ \<Rightarrow> Inr h)))"

definition removeId_h :: "nat \<Rightarrow> nat \<Rightarrow> heap \<Rightarrow> nat list \<Rightarrow> nat \<Rightarrow> error + heap \<times> nat list" where
  "removeId_h rows cols h g i =
     (case cloneState_h h g of
        (h1, ng) \<Rightarrow>
          (case fold (\<lambda>r acc. fold (\<lambda>c. removeId_cell_h i ng r c) [0..<cols] acc) [0..<rows]
                  (Inr h1) of
             Inl e \<Rightarrow> Inl e
           | Inr h2 \<Rightarrow> Inr (h2, ng)))"

record node_h =
  node_rows :: "nat list"
  node_moves :: "(nat \<times> nat) list"

record bfs_state_h =
  visited_h :: "string set"
  queue_h :: "node_h list"
  states_h :: nat
  heap_h :: heap

definition expand_move_h ::
  "nat \<Rightarrow> nat \<Rightarrow> node_h \<Rightarrow> nat \<times> nat \<Rightarrow> error + string set \<times> node_h list \<times> heap
     \<Rightarrow> error + string set \<times> node_h list \<times> heap" where
  "expand_move_h rows cols nd m acc =
     (case acc of
        Inl e \<Rightarrow> Inl e
      | Inr (vis, q, h) \<Rightarrow>
          (case cell_at (deref h (node_rows nd)) (fst m) (snd m) of
             Inl e \<Rightarrow> Inl e
           | Inr None \<Rightarrow> Inl TypeError
           | Inr (Some x) \<Rightarrow>
               (case removeId_h rows cols h (node_rows nd) (cell_id x) of
                  Inl e \<Rightarrow> Inl e
                | Inr (h', ng) \<Rightarrow>
                    if serializeGrid (deref h' ng) \<in> vis then Inr (vis, q, h')
                    else Inr (insert (serializeGrid (deref h' ng)) vis,
                              q @ [\<lparr>node_rows = ng, node_moves = node_moves nd @ [m]\<rparr>], h'))))"

type_synonym run_h = "error + (nat \<times> nat) list option \<times> heap"

definition bfs_step_h :: "nat \<Rightarrow> nat \<Rightarrow> int \<Rightarrow> bfs_state_h \<Rightarrow> run_h + bfs_state_h" where
  "bfs_step_h rows cols maxStates st =
     (case queue_h st of
        [] \<Rightarrow> Inl (Inr (None, heap_h st))
      | nd # rest \<Rightarrow>
          if int (states_h st + 1) > maxStates then Inl (Inr (None, heap_h st))
          else if allEmpty (deref (heap_h st) (node_rows nd))
          then Inl (Inr (Some (node_moves nd), heap_h st))
          else
            (case find_moves rows cols (deref (heap_h st) (node_rows nd)) of
               Inl e \<Rightarrow> Inl (Inl e)
             | Inr moves \<Rightarrow>
                 (case fold (expand_move_h rows cols nd) moves
                         (Inr (visited_h st, rest, heap_h st)) of
                    Inl e \<Rightarrow> Inl (Inl e)
                  | Inr (vis, q, h') \<Rightarrow>
                      Inr \<lparr>visited_h = vis, queue_h = q, states_h = states_h st + 1,
                           heap_h = h'\<rparr>)))"

lemma bfs_step_h_states:
  "bfs_step_h rows cols maxStates st = Inr st' \<Longrightarrow>
     states_h st' = states_h st + 1 \<and> int (states_h st') \<le> maxStates"
  by (auto simp: bfs_step_h_def split: list.splits if_splits sum.splits prod.splits)

function bfs_loop_h :: "nat \<Rightarrow> nat \<Rightarrow> int \<Rightarrow> bfs_state_h \<Rightarrow> run_h" where
  "bfs_loop_h rows cols maxStates st =
     (case bfs_step_h rows cols maxStates st of
        Inl res \<Rightarrow> res
      | Inr st' \<Rightarrow> bfs_loop_h rows cols maxStates st')"
  by pat_completeness auto
termination
proof (relation "measure (\<lambda>(rows, cols, maxStates, st). nat (maxStates - int (states_h st)))")
  show "wf (measure (\<lambda>(rows, cols, maxStates, st). nat (maxStates - int (states_h st))))"
    by simp
next
  fix rows cols :: nat and maxStates :: int and st st' :: bfs_state_h
  assume "bfs_step_h rows cols maxStates st = Inr st'"
  from bfs_step_h_states [OF this]
  show "((rows, cols, maxStates, st'), (rows, cols, maxStates, st))
          \<in> measure (\<lambda>(rows, cols, maxStates, st). nat (maxStates - int (states_h st)))"
    by simp
qed

declare bfs_loop_h.simps [simp del]

definition findSolutionLimited_h :: "heap \<Rightarrow> nat list \<Rightarrow> int \<Rightarrow> run_h" where
  "findSolutionLimited_h h startGrid maxStates =
     (case startGrid of
        [] \<Rightarrow> Inl TypeError
      | a0 # _ \<Rightarrow>
          (case cloneState_h h startGrid of
             (h1, g1) \<Rightarrow>
               bfs_loop_h (length startGrid) (length (mem h a0)) maxStates
                 \<lparr>visited_h = {serializeGrid (deref h startGrid)},
                  queue_h = [\<lparr>node_rows = g1, node_moves = []\<rparr>],
                  states_h = 0, heap_h = h1\<rparr>))"

text \<open>A store holding the rows of a grid at the addresses \<open>0, 1, \<dots>\<close>.\<close>

definition store_of :: "grid \<Rightarrow> heap" where
  "store_of g = \<lparr>mem = (\<lambda>a. if a < length g then g ! a else []), next_free = length g\<rparr>"

section \<open>Reading the claims\<close>

text \<open>
  The cells strictly between \<open>(r, c)\<close> and the board edge in direction \<open>d\<close>, nearest
  first, on a board of \<open>length g\<close> rows and \<open>length (g ! 0)\<close> columns.
\<close>

definition path_cells :: "grid \<Rightarrow> nat \<Rightarrow> nat \<Rightarrow> dir \<Rightarrow> (nat \<times> nat) list" where
  "path_cells g r c d =
     (case d of
        U \<Rightarrow> map (\<lambda>rr. (rr, c)) (rev [0..<r])
      | D \<Rightarrow> map (\<lambda>rr. (rr, c)) [Suc r..<length g]
      | L \<Rightarrow> map (\<lambda>cc. (r, cc)) (rev [0..<c])
      | R \<Rightarrow> map (\<lambda>cc. (r, cc)) [Suc c..<length (g ! 0)])"

text \<open>The cell at \<open>p\<close> holds a segment of piece \<open>i\<close>.\<close>

definition same_piece :: "grid \<Rightarrow> nat \<Rightarrow> nat \<times> nat \<Rightarrow> bool" where
  "same_piece g i p =
     (case idx (g ! fst p) (snd p) of Some (Some x) \<Rightarrow> cell_id x = i | _ \<Rightarrow> False)"

text \<open>The cell at \<open>p\<close> holds no segment of a piece other than \<open>i\<close>: it is empty or belongs to \<open>i\<close>.\<close>

definition not_foreign :: "grid \<Rightarrow> nat \<Rightarrow> nat \<times> nat \<Rightarrow> bool" where
  "not_foreign g i p =
     (case idx (g ! fst p) (snd p) of Some (Some x) \<Rightarrow> cell_id x = i | _ \<Rightarrow> True)"

text \<open>The 2 by 2 board of the first scenario: one piece at \<open>(0, 0)\<close>, direction Right, length 1.\<close>

definition single_piece_grid :: grid where
  "single_piece_grid =
     [[Some \<lparr>cell_id = 1, cell_dir = R, cell_len = 1, cell_head = True\<rparr>, None],
      [None, None]]"

text \<open>The cell value \<open>x\<close> is a segment of piece \<open>i\<close>.\<close>

definition holds_id :: "nat \<Rightarrow> cell option \<Rightarrow> bool" where
  "holds_id i x = (case x of Some y \<Rightarrow> cell_id y = i | None \<Rightarrow> False)"

text \<open>Removing a whole piece, as the claims word it: every cell that carries the id is emptied.\<close>

definition remove_piece :: "grid \<Rightarrow> nat \<Rightarrow> grid" where
  "remove_piece g i = map (map (\<lambda>x. if holds_id i x then None else x)) g"

text \<open>
  Playing a move sequence: each move must name a cell that holds a segment and for which
  \<open>canExit\<close> is true on the current board; the piece of that cell is then removed.
  \<open>None\<close> when some move is not allowed.
\<close>

fun replay :: "grid \<Rightarrow> (nat \<times> nat) list \<Rightarrow> grid option" where
  "replay g [] = Some g"
| "replay g (m # ms) =
     (case cell_at g (fst m) (snd m) of
        Inr (Some x) \<Rightarrow>
          if canExit g (fst m) (snd m) = Inr True then replay (remove_piece g (cell_id x)) ms
          else None
      | _ \<Rightarrow> None)"

text \<open>The ids of the segments on a board, cell by cell, and the id a move names.\<close>

definition ids_list :: "grid \<Rightarrow> nat list" where
  "ids_list g =
     concat (map (\<lambda>row. concat (map (\<lambda>x. case x of Some y \<Rightarrow> [cell_id y] | None \<Rightarrow> []) row)) g)"

definition piece_ids :: "grid \<Rightarrow> nat set" where
  "piece_ids g = set (ids_list g)"

definition move_id :: "grid \<Rightarrow> nat \<times> nat \<Rightarrow> nat" where
  "move_id g m = (case cell_at g (fst m) (snd m) of Inr (Some x) \<Rightarrow> cell_id x | _ \<Rightarrow> 0)"

text \<open>What the two loops of \<open>removeId\<close> have done to one row after \<open>n\<close> columns.\<close>

definition clear_upto :: "nat \<Rightarrow> nat \<Rightarrow> cell option list \<Rightarrow> cell option list" where
  "clear_upto n i row =
     map (\<lambda>(c, x). if c < n \<and> holds_id i x then None else x) (zip [0..<length row] row)"

text \<open>
  The same play with the removal as the solver's \<open>removeId\<close> performs it on a board whose
  row count is the closure variable \<open>rows\<close>: only the first \<open>cols\<close> columns are visited.
\<close>

fun replay_box :: "nat \<Rightarrow> grid \<Rightarrow> (nat \<times> nat) list \<Rightarrow> grid option" where
  "replay_box cols g [] = Some g"
| "replay_box cols g (m # ms) =
     (case cell_at g (fst m) (snd m) of
        Inr (Some x) \<Rightarrow>
          if canExit g (fst m) (snd m) = Inr True
          then replay_box cols (map (clear_upto cols (cell_id x)) g) ms
          else None
      | _ \<Rightarrow> None)"

text \<open>A move the solver may take on \<open>g\<close>: the cell holds a head and \<open>canExit\<close> is true.\<close>

definition good_move :: "grid \<Rightarrow> nat \<times> nat \<Rightarrow> bool" where
  "good_move g m =
     (case cell_at g (fst m) (snd m) of
        Inr (Some x) \<Rightarrow> cell_head x \<and> canExit g (fst m) (snd m) = Inr True
      | _ \<Rightarrow> False)"

text \<open>What holds of every node on the queue of a search started on \<open>g0\<close>.\<close>

definition node_ok :: "grid \<Rightarrow> nat \<Rightarrow> nat \<Rightarrow> node \<Rightarrow> bool" where
  "node_ok g0 rows cols nd =
     (length (node_grid nd) = rows \<and> replay_box cols g0 (node_seq nd) = Some (node_grid nd))"

text \<open>
  The board of the second scenario: in row 0 a length-1 piece at \<open>(0, 0)\<close> pointing right
  and a length-1 piece at \<open>(0, 1)\<close> pointing left, every other cell empty; \<open>n\<close> further
  columns and \<open>m\<close> further rows.
\<close>

definition facing_pair_grid :: "nat \<Rightarrow> nat \<Rightarrow> nat \<Rightarrow> nat \<Rightarrow> grid" where
  "facing_pair_grid ia ib n m =
     (Some \<lparr>cell_id = ia, cell_dir = R, cell_len = 1, cell_head = True\<rparr>
        # Some \<lparr>cell_id = ib, cell_dir = L, cell_len = 1, cell_head = True\<rparr>
        # replicate n None)
     # replicate m (replicate (n + 2) None)"

text \<open>A random source whose every draw is \<open>x\<close>.\<close>

definition const_rnd :: "real \<Rightarrow> nat \<Rightarrow> real" where
  "const_rnd x n = x"

text \<open>
  The grid invariant of the data model, piece by piece. \<open>cells_of g i\<close> lists the
  coordinates of the cells that carry id \<open>i\<close> in row-major order, \<open>segments_of g i\<close> their
  segments. A piece is well-formed when all its segments agree on direction and length,
  the number of its cells is that length, exactly one segment is the head, and the cells
  are a contiguous run in one row (direction Left or Right) or one column (Up or Down).
\<close>

definition cells_of :: "grid \<Rightarrow> nat \<Rightarrow> (nat \<times> nat) list" where
  "cells_of g i =
     concat (map (\<lambda>r. map (\<lambda>c. (r, c)) (filter (\<lambda>c. holds_id i (g ! r ! c)) [0..<length (g ! r)]))
               [0..<length g])"

definition segments_of :: "grid \<Rightarrow> nat \<Rightarrow> cell list" where
  "segments_of g i =
     concat (map (\<lambda>row. concat (map (\<lambda>x. case x of Some y \<Rightarrow> if cell_id y = i then [y] else []
                                              | None \<Rightarrow> []) row)) g)"

definition straight_run :: "dir \<Rightarrow> (nat \<times> nat) list \<Rightarrow> bool" where
  "straight_run d ps =
     (case ps of
        [] \<Rightarrow> True
      | p # _ \<Rightarrow>
          (case d of
             L \<Rightarrow> ps = map (\<lambda>k. (fst p, snd p + k)) [0..<length ps]
           | R \<Rightarrow> ps = map (\<lambda>k. (fst p, snd p + k)) [0..<length ps]
           | U \<Rightarrow> ps = map (\<lambda>k. (fst p + k, snd p)) [0..<length ps]
           | D \<Rightarrow> ps = map (\<lambda>k. (fst p + k, snd p)) [0..<length ps]))"

definition piece_ok :: "grid \<Rightarrow> nat \<Rightarrow> bool" where
  "piece_ok g i =
     (case segments_of g i of
        [] \<Rightarrow> True
      | x # xs \<Rightarrow>
          list_all (\<lambda>y. cell_dir y = cell_dir x \<and> cell_len y = cell_len x) xs
          \<and> int (length (x # xs)) = cell_len x
          \<and> length (filter cell_head (x # xs)) = 1
          \<and> straight_run (cell_dir x) (cells_of g i))"

definition grid_invariant :: "grid \<Rightarrow> bool" where
  "grid_invariant g = list_all (piece_ok g) (remdups (ids_list g))"

text \<open>
  Every array that existed below address \<open>n0\<close> in the store \<open>h0\<close> still holds the same
  cells in \<open>h\<close>, and nothing below \<open>n0\<close> has become free again.
\<close>

definition unchanged_below :: "nat \<Rightarrow> heap \<Rightarrow> heap \<Rightarrow> bool" where
  "unchanged_below n0 h0 h = (n0 \<le> next_free h \<and> (\<forall>b<n0. mem h b = mem h0 b))"

text \<open>
  Relating the solver on the store to the solver on grid values: a queued node stands for
  the grid its rows hold, and an accumulator of a loop on the store matches the accumulator
  of the same loop on values.
\<close>

definition abs_node :: "heap \<Rightarrow> node_h \<Rightarrow> node" where
  "abs_node h nd = \<lparr>node_grid = deref h (node_rows nd), node_seq = node_moves nd\<rparr>"

definition allocated :: "heap \<Rightarrow> nat list \<Rightarrow> bool" where
  "allocated h g = (\<forall>a\<in>set g. a < next_free h)"

definition row_sim :: "nat list \<Rightarrow> heap \<Rightarrow> error + heap \<Rightarrow> error + grid \<Rightarrow> bool" where
  "row_sim ng h1 a b =
     (case a of
        Inl e \<Rightarrow> b = Inl e
      | Inr h \<Rightarrow> b = Inr (deref h ng) \<and> next_free h = next_free h1
                 \<and> (\<forall>x. x \<notin> set ng \<longrightarrow> mem h x = mem h1 x))"

definition queue_sim ::
  "heap \<Rightarrow> error + string set \<times> node_h list \<times> heap \<Rightarrow> error + string set \<times> node list \<Rightarrow> bool" where
  "queue_sim h0 a b =
     (case a of
        Inl e \<Rightarrow> b = Inl e
      | Inr (vis, qh, h) \<Rightarrow>
          b = Inr (vis, map (abs_node h) qh) \<and> unchanged_below (next_free h0) h0 h
          \<and> (\<forall>n\<in>set qh. allocated h (node_rows n)))"

definition state_sim :: "bfs_state_h \<Rightarrow> bfs_state \<Rightarrow> bool" where
  "state_sim sh s =
     (visited_h sh = visited s \<and> states_h sh = states s
      \<and> map (abs_node (heap_h sh)) (queue_h sh) = queue s
      \<and> (\<forall>n\<in>set (queue_h sh). allocated (heap_h sh) (node_rows n)))"

section \<open>Properties of the exit predicate\<close>

lemma not_foreign_pair:
  "not_foreign g i (r, c) =
     (case idx (g ! r) c of Some (Some x) \<Rightarrow> cell_id x = i | _ \<Rightarrow> True)"
  by (simp add: not_foreign_def)

text \<open>The walk of \<open>canExit\<close>, one lemma for each direction.\<close>

lemma canExit_loop_D:
  "c < W \<Longrightarrow> canExit_loop g (int W) i D (int rr) (int c)
     = list_all (not_foreign g i) (map (\<lambda>rr'. (rr', c)) [rr..<length g])"
proof (induction "length g - rr" arbitrary: rr)
  case 0
  then show ?case by (subst canExit_loop.simps) simp
next
  case (Suc n)
  then have lt: "rr < length g" and n: "n = length g - Suc rr" by auto
  have step: "int rr + 1 = int (Suc rr)" by simp
  show ?case
    using Suc.prems lt Suc.hyps(1) [OF n Suc.prems]
    by (subst canExit_loop.simps)
       (auto simp: upt_conv_Cons not_foreign_pair step simp del: of_nat_Suc split: option.splits)
qed

lemma canExit_loop_U:
  "c < W \<Longrightarrow> rr \<le> length g \<Longrightarrow> canExit_loop g (int W) i U (int rr - 1) (int c)
     = list_all (not_foreign g i) (map (\<lambda>rr'. (rr', c)) (rev [0..<rr]))"
proof (induction rr)
  case 0
  then show ?case by (subst canExit_loop.simps) simp
next
  case (Suc rr)
  have step: "int (Suc rr) - 1 = int rr" by simp
  show ?case
    using Suc
    by (subst canExit_loop.simps)
       (auto simp: not_foreign_pair step simp del: of_nat_Suc split: option.splits)
qed

lemma canExit_loop_R:
  "r < length g \<Longrightarrow> canExit_loop g (int W) i R (int r) (int cc)
     = list_all (not_foreign g i) (map (\<lambda>cc'. (r, cc')) [cc..<W])"
proof (induction "W - cc" arbitrary: cc)
  case 0
  then show ?case by (subst canExit_loop.simps) simp
next
  case (Suc n)
  then have lt: "cc < W" and n: "n = W - Suc cc" by auto
  have step: "int cc + 1 = int (Suc cc)" by simp
  show ?case
    using Suc.prems lt Suc.hyps(1) [OF n Suc.prems]
    by (subst canExit_loop.simps)
       (auto simp: upt_conv_Cons not_foreign_pair step simp del: of_nat_Suc split: option.splits)
qed

lemma canExit_loop_L:
  "r < length g \<Longrightarrow> cc \<le> W \<Longrightarrow> canExit_loop g (int W) i L (int r) (int cc - 1)
     = list_all (not_foreign g i) (map (\<lambda>cc'. (r, cc')) (rev [0..<cc]))"
proof (induction cc)
  case 0
  then show ?case by (subst canExit_loop.simps) simp
next
  case (Suc cc)
  have step: "int (Suc cc) - 1 = int cc" by simp
  show ?case
    using Suc
    by (subst canExit_loop.simps)
       (auto simp: not_foreign_pair step simp del: of_nat_Suc split: option.splits)
qed

lemma canExit_path:
  assumes r: "r < length g" and c: "c < length (g ! 0)"
    and x: "cell_at g r c = Inr (Some x)" and h: "cell_head x"
  shows "canExit g r c =
           Inr (list_all (not_foreign g (cell_id x)) (path_cells g r c (cell_dir x)))"
proof -
  from r obtain row0 rest where g: "g = row0 # rest" by (cases g) auto
  have eq: "canExit g r c =
              Inr (canExit_loop g (int (length (g ! 0))) (cell_id x) (cell_dir x)
                     (int r + fst (DIR_VECTORS (cell_dir x)))
                     (int c + snd (DIR_VECTORS (cell_dir x))))"
    using x h by (simp add: canExit_def g)
  show ?thesis
  proof (cases "cell_dir x")
    case U
    then show ?thesis using eq canExit_loop_U [OF c, of r g "cell_id x"] r
      by (simp add: path_cells_def)
  next
    case D
    then show ?thesis using eq canExit_loop_D [OF c, of g "cell_id x" "Suc r"]
      by (simp add: path_cells_def add.commute)
  next
    case L
    then show ?thesis using eq canExit_loop_L [OF r, of c "length (g ! 0)" "cell_id x"] c
      by (simp add: path_cells_def)
  next
    case R
    then show ?thesis using eq canExit_loop_R [OF r, of "length (g ! 0)" "cell_id x" "Suc c"]
      by (simp add: path_cells_def add.commute)
  qed
qed

text \<open>
  Claim C2, as worded: on a head cell \<open>canExit\<close> is true iff every cell between the head
  and the board edge belongs to the same piece. This fails on the board with one piece at
  \<open>(0, 0)\<close> pointing right: the cell \<open>(0, 1)\<close> on its path is empty, it belongs to no
  piece, and \<open>canExit\<close> is true all the same.
\<close>

theorem C2_same_piece_counterexample:
  "canExit single_piece_grid 0 0 = Inr True
   \<and> \<not> list_all (same_piece single_piece_grid 1) (path_cells single_piece_grid 0 0 R)"
  by (simp add: canExit_def cell_at_def idx_def single_piece_grid_def canExit_loop.simps
        path_cells_def same_piece_def)

text \<open>
  Claim C2, amended: for a head cell \<open>(r, c)\<close> inside the board, \<open>canExit\<close> returns true
  iff no cell strictly between the head and the board edge, along the direction of the
  piece, holds a segment of another piece: each such cell is empty or belongs to the same
  piece id.
\<close>

theorem C2_canExit_iff_path_clear:
  assumes "r < length g" and "c < length (g ! 0)"
    and "cell_at g r c = Inr (Some x)" and "cell_head x"
  shows "canExit g r c =
           Inr (list_all (not_foreign g (cell_id x)) (path_cells g r c (cell_dir x)))"
  using assms by (rule canExit_path)

theorem C2_canExit_iff_path_clear_witness:
  "0 < length single_piece_grid \<and> 0 < length (single_piece_grid ! 0)
   \<and> cell_at single_piece_grid 0 0
       = Inr (Some \<lparr>cell_id = 1, cell_dir = R, cell_len = 1, cell_head = True\<rparr>)
   \<and> canExit single_piece_grid 0 0 = Inr True"
proof -
  have a: "0 < length single_piece_grid" and b: "0 < length (single_piece_grid ! 0)"
    and c: "cell_at single_piece_grid 0 0
       = Inr (Some \<lparr>cell_id = 1, cell_dir = R, cell_len = 1, cell_head = True\<rparr>)"
    and d: "cell_head \<lparr>cell_id = 1, cell_dir = R, cell_len = 1, cell_head = True\<rparr>"
    by (simp_all add: single_piece_grid_def cell_at_def idx_def)
  have "list_all (not_foreign single_piece_grid 1) (path_cells single_piece_grid 0 0 R)"
    by (simp add: single_piece_grid_def path_cells_def not_foreign_def idx_def)
  with C2_canExit_iff_path_clear [OF a b c d] a b c show ?thesis by simp
qed

text \<open>
  Claim C7: on a cell inside the grid that is empty or holds a segment that is not a head,
  \<open>canExit\<close> returns false; it does not throw.
\<close>

theorem C7_canExit_false_without_head:
  assumes "r < length g" and "c < length (g ! r)"
    and "g ! r ! c = None \<or> (\<exists>x. g ! r ! c = Some x \<and> \<not> cell_head x)"
  shows "canExit g r c = Inr False"
  using assms by (auto simp: canExit_def cell_at_def idx_def)

theorem C7_canExit_false_without_head_witness:
  "canExit single_piece_grid 0 1 = Inr False
   \<and> canExit [[Some \<lparr>cell_id = 1, cell_dir = R, cell_len = 2, cell_head = False\<rparr>,
                 Some \<lparr>cell_id = 1, cell_dir = R, cell_len = 2, cell_head = True\<rparr>]] 0 0
       = Inr False"
proof -
  have "canExit single_piece_grid 0 1 = Inr False"
    by (rule C7_canExit_false_without_head) (simp_all add: single_piece_grid_def)
  moreover have "canExit [[Some \<lparr>cell_id = 1, cell_dir = R, cell_len = 2, cell_head = False\<rparr>,
                 Some \<lparr>cell_id = 1, cell_dir = R, cell_len = 2, cell_head = True\<rparr>]] 0 0
       = Inr False"
    by (rule C7_canExit_false_without_head) simp_all
  ultimately show ?thesis by simp
qed

section \<open>The solver's removal of a piece\<close>

lemma cloneGrid_id: "cloneGrid g = g"
proof -
  have "(\<lambda>c::cell option. case c of Some x \<Rightarrow> Some x | None \<Rightarrow> None) = (\<lambda>c. c)"
    by (auto split: option.splits)
  then show ?thesis by (simp add: cloneGrid_def)
qed

lemma length_clear_upto [simp]: "length (clear_upto n i row) = length row"
  by (simp add: clear_upto_def)

lemma nth_clear_upto:
  "c < length row \<Longrightarrow> clear_upto n i row ! c = (if c < n \<and> holds_id i (row ! c) then None else row ! c)"
  by (simp add: clear_upto_def)

lemma clear_upto_0 [simp]: "clear_upto 0 i row = row"
  by (rule nth_equalityI) (simp_all add: nth_clear_upto)

lemma clear_upto_Suc:
  "clear_upto (Suc n) i row =
     (if n < length row \<and> holds_id i (row ! n) then (clear_upto n i row)[n := None]
      else clear_upto n i row)"
  by (rule nth_equalityI) (auto simp: nth_clear_upto nth_list_update less_Suc_eq)

lemma removeId_row:
  assumes r: "r < length ng"
  shows "fold (\<lambda>c. removeId_cell i r c) [0..<n] (Inr ng) = Inr (ng[r := clear_upto n i (ng ! r)])"
proof (induction n)
  case 0
  then show ?case by simp
next
  case (Suc n)
  let ?row = "clear_upto n i (ng ! r)"
  have cell: "cell_at (ng[r := ?row]) r n =
                Inr (if n < length (ng ! r) then ng ! r ! n else None)"
    using r by (auto simp: cell_at_def idx_def nth_clear_upto)
  have "removeId_cell i r n (Inr (ng[r := ?row])) = Inr (ng[r := clear_upto (Suc n) i (ng ! r)])"
    using r
    by (auto simp: removeId_cell_def cell clear_upto_Suc holds_id_def split: option.splits)
  with Suc show ?case by simp
qed

lemma removeId_rows:
  "m \<le> length g \<Longrightarrow>
   fold (\<lambda>r acc. fold (\<lambda>c. removeId_cell i r c) [0..<cols] acc) [0..<m] (Inr g)
     = Inr (map (clear_upto cols i) (take m g) @ drop m g)"
proof (induction m)
  case 0
  then show ?case by simp
next
  case (Suc m)
  let ?g = "map (clear_upto cols i) (take m g) @ drop m g"
  from Suc.prems have m: "m < length g" by simp
  then have len: "m < length ?g" by simp
  have at: "?g ! m = g ! m" using m by (simp add: nth_append)
  have "?g[m := clear_upto cols i (g ! m)] = map (clear_upto cols i) (take (Suc m) g) @ drop (Suc m) g"
    using m by (simp add: take_Suc_conv_app_nth list_update_append Cons_nth_drop_Suc [symmetric])
  with Suc.IH m removeId_row [OF len, of i cols] at show ?case by simp
qed

lemma removeId_eq:
  "rows = length g \<Longrightarrow> removeId rows cols g i = Inr (map (clear_upto cols i) g)"
  using removeId_rows [of "length g" g i cols] by (simp add: removeId_def cloneGrid_id)

section \<open>Invariants of the search loop\<close>

lemma fold_invariant:
  assumes "P a" and "\<And>x a. x \<in> set xs \<Longrightarrow> P a \<Longrightarrow> P (f x a)"
  shows "P (fold f xs a)"
  using assms by (induction xs arbitrary: a) auto

lemma canExit_no_error: "r < length g \<Longrightarrow> \<exists>b. canExit g r c = Inr b"
  by (cases g) (auto simp: canExit_def cell_at_def idx_def split: option.splits)

lemma find_moves_cell_good:
  assumes "r < length g" and "\<forall>m\<in>set ms. good_move g m"
  shows "\<exists>ms'. find_moves_cell g r c (Inr ms) = Inr ms' \<and> (\<forall>m\<in>set ms'. good_move g m)"
proof -
  from canExit_no_error [OF assms(1)] obtain b where b: "canExit g r c = Inr b" by blast
  obtain y where y: "cell_at g r c = Inr y"
    using assms(1) by (simp add: cell_at_def idx_def)
  show ?thesis
    using assms(2) b y
    by (cases y) (auto simp: find_moves_cell_def good_move_def)
qed

lemma find_moves_good:
  assumes "rows \<le> length g"
  shows "\<exists>ms. find_moves rows cols g = Inr ms \<and> (\<forall>m\<in>set ms. good_move g m)"
  unfolding find_moves_def
proof (rule fold_invariant [where P = "\<lambda>acc. \<exists>ms. acc = Inr ms \<and> (\<forall>m\<in>set ms. good_move g m)"])
  show "\<exists>ms. Inr [] = Inr ms \<and> (\<forall>m\<in>set ms. good_move g m)" by simp
next
  fix r and a :: "error + (nat \<times> nat) list"
  assume r: "r \<in> set [0..<rows]" and a: "\<exists>ms. a = Inr ms \<and> (\<forall>m\<in>set ms. good_move g m)"
  from r assms have rl: "r < length g" by simp
  show "\<exists>ms. fold (find_moves_cell g r) [0..<cols] a = Inr ms \<and> (\<forall>m\<in>set ms. good_move g m)"
  proof (rule fold_invariant [where P = "\<lambda>acc. \<exists>ms. acc = Inr ms \<and> (\<forall>m\<in>set ms. good_move g m)"])
    show "\<exists>ms. a = Inr ms \<and> (\<forall>m\<in>set ms. good_move g m)" by (rule a)
  next
    fix c and b :: "error + (nat \<times> nat) list"
    assume "\<exists>ms. b = Inr ms \<and> (\<forall>m\<in>set ms. good_move g m)"
    then obtain ms where "b = Inr ms" "\<forall>m\<in>set ms. good_move g m" by blast
    with find_moves_cell_good [OF rl, of ms c]
    show "\<exists>ms. find_moves_cell g r c b = Inr ms \<and> (\<forall>m\<in>set ms. good_move g m)" by simp
  qed
qed

lemma replay_box_append:
  "replay_box cols g (ms @ [m]) =
     (case replay_box cols g ms of None \<Rightarrow> None | Some g' \<Rightarrow> replay_box cols g' [m])"
  by (induction ms arbitrary: g) (auto split: sum.splits option.splits)

lemma expand_move_ok:
  assumes nd: "node_ok g0 rows cols nd" and m: "good_move (node_grid nd) m"
    and q: "\<forall>n\<in>set q. node_ok g0 rows cols n"
  shows "\<exists>vis' q'. expand_move rows cols nd m (Inr (vis, q)) = Inr (vis', q')
            \<and> (\<forall>n\<in>set q'. node_ok g0 rows cols n)"
proof -
  from m obtain x where x: "cell_at (node_grid nd) (fst m) (snd m) = Inr (Some x)"
    and ex: "canExit (node_grid nd) (fst m) (snd m) = Inr True"
    by (auto simp: good_move_def split: sum.splits option.splits)
  let ?ng = "map (clear_upto cols (cell_id x)) (node_grid nd)"
  from nd have len: "rows = length (node_grid nd)" by (simp add: node_ok_def)
  have rm: "removeId rows cols (node_grid nd) (cell_id x) = Inr ?ng"
    by (rule removeId_eq [OF len])
  have "node_ok g0 rows cols \<lparr>node_grid = ?ng, node_seq = node_seq nd @ [m]\<rparr>"
    using nd x ex by (simp add: node_ok_def replay_box_append)
  with q x rm show ?thesis by (auto simp: expand_move_def)
qed

lemma expand_moves_ok:
  assumes nd: "node_ok g0 rows cols nd" and ms: "\<forall>m\<in>set ms. good_move (node_grid nd) m"
    and q: "\<forall>n\<in>set q. node_ok g0 rows cols n"
  shows "\<exists>vis' q'. fold (expand_move rows cols nd) ms (Inr (vis, q)) = Inr (vis', q')
            \<and> (\<forall>n\<in>set q'. node_ok g0 rows cols n)"
proof (rule fold_invariant [where P = "\<lambda>acc. \<exists>vis' q'. acc = Inr (vis', q')
            \<and> (\<forall>n\<in>set q'. node_ok g0 rows cols n)"])
  show "\<exists>vis' q'. Inr (vis, q) = Inr (vis', q') \<and> (\<forall>n\<in>set q'. node_ok g0 rows cols n)"
    using q by simp
next
  fix m and a :: "error + string set \<times> node list"
  assume "m \<in> set ms" and "\<exists>vis' q'. a = Inr (vis', q') \<and> (\<forall>n\<in>set q'. node_ok g0 rows cols n)"
  then show "\<exists>vis' q'. expand_move rows cols nd m a = Inr (vis', q')
            \<and> (\<forall>n\<in>set q'. node_ok g0 rows cols n)"
    using expand_move_ok [OF nd] ms by blast
qed

text \<open>The outcome of one iteration on a state whose queue satisfies the node invariant.\<close>

lemma bfs_step_cases:
  assumes inv: "\<forall>n\<in>set (queue st). node_ok g0 rows cols n"
  shows "(queue st = [] \<and> bfs_step rows cols cap st = Inl (Inr (None, states st)))
       \<or> (queue st \<noteq> [] \<and> cap < int (states st + 1)
            \<and> bfs_step rows cols cap st = Inl (Inr (None, states st + 1)))
       \<or> (queue st \<noteq> [] \<and> int (states st + 1) \<le> cap \<and> allEmpty (node_grid (hd (queue st)))
            \<and> bfs_step rows cols cap st = Inl (Inr (Some (node_seq (hd (queue st))), states st + 1)))
       \<or> (queue st \<noteq> [] \<and> int (states st + 1) \<le> cap
            \<and> (\<exists>st'. bfs_step rows cols cap st = Inr st' \<and> states st' = states st + 1
                  \<and> (\<forall>n\<in>set (queue st'). node_ok g0 rows cols n)))"
proof (cases "queue st")
  case Nil
  then show ?thesis by (simp add: bfs_step_def)
next
  case (Cons nd rest)
  with inv have nd: "node_ok g0 rows cols nd" and rest: "\<forall>n\<in>set rest. node_ok g0 rows cols n"
    by simp_all
  from nd have "rows \<le> length (node_grid nd)" by (simp add: node_ok_def)
  from find_moves_good [OF this, of cols] obtain ms
    where ms: "find_moves rows cols (node_grid nd) = Inr ms" "\<forall>m\<in>set ms. good_move (node_grid nd) m"
    by blast
  from expand_moves_ok [OF nd ms(2) rest, of "visited st"] obtain vis' q'
    where ex: "fold (expand_move rows cols nd) ms (Inr (visited st, rest)) = Inr (vis', q')"
      "\<forall>n\<in>set q'. node_ok g0 rows cols n"
    by blast
  show ?thesis
    using Cons ms(1) ex by (simp add: bfs_step_def)
qed

lemma bfs_loop_rule:
  assumes "I st"
    and "\<And>s s'. I s \<Longrightarrow> bfs_step rows cols cap s = Inr s' \<Longrightarrow> I s'"
    and "\<And>s res. I s \<Longrightarrow> bfs_step rows cols cap s = Inl res \<Longrightarrow> Q res"
  shows "Q (bfs_loop rows cols cap st)"
  using assms
proof (induction rows cols cap st rule: bfs_loop.induct)
  case (1 rows cols cap st)
  show ?case
  proof (cases "bfs_step rows cols cap st")
    case (Inl res)
    with "1.prems"(3) [OF "1.prems"(1)] show ?thesis by (subst bfs_loop.simps) simp
  next
    case (Inr st')
    have "I st'" by (rule "1.prems"(2) [OF "1.prems"(1) Inr])
    from "1.IH" [OF Inr this "1.prems"(2,3)] Inr show ?thesis
      by (subst bfs_loop.simps) simp
  qed
qed

section \<open>What a run of the solver returns\<close>

lemma allEmpty_nth:
  "allEmpty g = (\<forall>r<length g. \<forall>c<length (g ! r). g ! r ! c = None)"
  by (simp add: allEmpty_def list_all_length)

lemma run_result:
  assumes g: "g = row0 # rest"
  shows "\<exists>r n. findSolutionLimited_run g cap = Inr (r, n)
           \<and> int n \<le> max cap 0 + 1 \<and> (cap < int n \<longrightarrow> r = None)
           \<and> (\<forall>ms. r = Some ms \<longrightarrow>
                 (\<exists>final. replay_box (length row0) g ms = Some final \<and> allEmpty final))"
proof -
  let ?rows = "length g" and ?cols = "length row0"
  let ?I = "\<lambda>s. (\<forall>n\<in>set (queue s). node_ok g ?rows ?cols n) \<and> int (states s) \<le> max cap 0"
  let ?Q = "\<lambda>res. \<exists>r n. res = Inr (r, n)
           \<and> int n \<le> max cap 0 + 1 \<and> (cap < int n \<longrightarrow> r = None)
           \<and> (\<forall>ms. r = Some ms \<longrightarrow>
                 (\<exists>final. replay_box ?cols g ms = Some final \<and> allEmpty final))"
  let ?st0 = "\<lparr>visited = {serializeGrid g},
             queue = [\<lparr>node_grid = cloneGrid g, node_seq = []\<rparr>], states = 0\<rparr>"
  have "?Q (bfs_loop ?rows ?cols cap ?st0)"
  proof (rule bfs_loop_rule [where I = ?I])
    show "?I ?st0" by (simp add: node_ok_def cloneGrid_id)
  next
    fix s s' assume I: "?I s" and step: "bfs_step ?rows ?cols cap s = Inr s'"
    from I have q: "\<forall>n\<in>set (queue s). node_ok g ?rows ?cols n" by simp
    from bfs_step_cases [OF q, of cap] step bfs_step_states [OF step]
    show "?I s'" by auto
  next
    fix s res assume I: "?I s" and step: "bfs_step ?rows ?cols cap s = Inl res"
    from I have q: "\<forall>n\<in>set (queue s). node_ok g ?rows ?cols n"
      and n: "int (states s) \<le> max cap 0" by simp_all
    from bfs_step_cases [OF q, of cap] step
    consider "res = Inr (None, states s)"
      | "cap < int (states s + 1)" "res = Inr (None, states s + 1)"
      | "queue s \<noteq> []" "int (states s + 1) \<le> cap" "allEmpty (node_grid (hd (queue s)))"
        "res = Inr (Some (node_seq (hd (queue s))), states s + 1)"
      by auto
    then show "?Q res"
    proof cases
      case 1
      with n show ?thesis by auto
    next
      case 2
      with n show ?thesis by auto
    next
      case 3
      from 3(1) q have "node_ok g ?rows ?cols (hd (queue s))" by simp
      with 3 n show ?thesis by (auto simp: node_ok_def)
    qed
  qed
  then show ?thesis by (simp add: findSolutionLimited_run_def g)
qed

text \<open>Cells outside the first \<open>cols\<close> columns never change during a play of the solver.\<close>

lemma replay_box_shape:
  "replay_box cols g ms = Some final \<Longrightarrow>
     length final = length g \<and>
     (\<forall>r<length g. length (final ! r) = length (g ! r) \<and>
        (\<forall>c<length (g ! r). cols \<le> c \<longrightarrow> final ! r ! c = g ! r ! c))"
proof (induction ms arbitrary: g)
  case Nil
  then show ?case by simp
next
  case (Cons m ms)
  from Cons.prems obtain x :: cell where
    rest: "replay_box cols (map (clear_upto cols (cell_id x)) g) ms = Some final"
    by (auto split: sum.splits option.splits if_splits)
  from Cons.IH [OF rest] show ?case by (auto simp: nth_clear_upto)
qed

lemma clear_upto_remove_piece:
  assumes "\<forall>r<length g. \<forall>c<length (g ! r). cols \<le> c \<longrightarrow> g ! r ! c = None"
  shows "map (clear_upto cols i) g = remove_piece g i"
proof (rule nth_equalityI)
  show "length (map (clear_upto cols i) g) = length (remove_piece g i)"
    by (simp add: remove_piece_def)
next
  fix r assume "r < length (map (clear_upto cols i) g)"
  then have r: "r < length g" by simp
  have "clear_upto cols i (g ! r) = map (\<lambda>x. if holds_id i x then None else x) (g ! r)"
  proof (rule nth_equalityI)
    show "length (clear_upto cols i (g ! r)) = length (map (\<lambda>x. if holds_id i x then None else x) (g ! r))"
      by simp
  next
    fix c assume "c < length (clear_upto cols i (g ! r))"
    then have c: "c < length (g ! r)" by simp
    show "clear_upto cols i (g ! r) ! c = map (\<lambda>x. if holds_id i x then None else x) (g ! r) ! c"
      using assms r c by (cases "c < cols") (auto simp: nth_clear_upto holds_id_def)
  qed
  with r show "map (clear_upto cols i) g ! r = remove_piece g i ! r"
    by (simp add: remove_piece_def)
qed

lemma replay_box_replay:
  "replay_box cols g ms = Some final \<Longrightarrow> allEmpty final \<Longrightarrow> replay g ms = Some final"
proof (induction ms arbitrary: g)
  case Nil
  then show ?case by simp
next
  case (Cons m ms)
  from Cons.prems(1) obtain x :: cell where x: "cell_at g (fst m) (snd m) = Inr (Some x)"
    and ex: "canExit g (fst m) (snd m) = Inr True"
    and rest: "replay_box cols (map (clear_upto cols (cell_id x)) g) ms = Some final"
    by (auto split: sum.splits option.splits if_splits)
  from replay_box_shape [OF Cons.prems(1)] Cons.prems(2)
  have "\<forall>r<length g. \<forall>c<length (g ! r). cols \<le> c \<longrightarrow> g ! r ! c = None"
    by (auto simp: allEmpty_nth)
  then have eq: "map (clear_upto cols (cell_id x)) g = remove_piece g (cell_id x)"
    by (rule clear_upto_remove_piece)
  from Cons.IH [OF rest Cons.prems(2)] x ex eq show ?case by simp
qed

lemma solver_sound:
  assumes "findSolutionLimited g cap = Inr (Some ms)"
  shows "\<exists>final. replay g ms = Some final \<and> allEmpty final"
proof -
  from assms obtain row0 rest where g: "g = row0 # rest"
    by (cases g) (auto simp: findSolutionLimited_def findSolutionLimited_run_def)
  from run_result [OF g, of cap] assms
  obtain final where "replay_box (length row0) g ms = Some final" "allEmpty final"
    by (auto simp: findSolutionLimited_def)
  then show ?thesis using replay_box_replay by blast
qed

section \<open>Counting the moves of a solution\<close>

lemma piece_ids_iff:
  "i \<in> piece_ids g \<longleftrightarrow> (\<exists>row\<in>set g. \<exists>x. Some x \<in> set row \<and> cell_id x = i)"
  by (auto simp: piece_ids_def ids_list_def split: option.splits)

lemma piece_ids_remove_piece: "piece_ids (remove_piece g i) = piece_ids g - {i}"
  by (auto simp: piece_ids_iff remove_piece_def holds_id_def split: if_splits) force+

lemma allEmpty_piece_ids: "allEmpty g \<Longrightarrow> piece_ids g = {}"
  unfolding allEmpty_def list_all_iff
proof (rule equals0I)
  fix i assume all: "\<forall>row\<in>set g. \<forall>c\<in>set row. c = None" and "i \<in> piece_ids g"
  then obtain row x where "row \<in> set g" "Some x \<in> set row" by (auto simp: piece_ids_iff)
  with all show False by blast
qed

lemma cell_at_piece_ids: "cell_at g r c = Inr (Some x) \<Longrightarrow> cell_id x \<in> piece_ids g"
  by (auto simp: cell_at_def idx_def piece_ids_iff split: if_splits option.splits)
     (metis nth_mem)

lemma cell_at_remove_piece:
  "cell_at (remove_piece g i) r c = Inr (Some y) \<Longrightarrow> cell_at g r c = Inr (Some y)"
  by (auto simp: cell_at_def idx_def remove_piece_def split: if_splits option.splits)

lemma replay_moves_occupied:
  "replay g ms = Some final \<Longrightarrow> m \<in> set ms \<Longrightarrow> \<exists>x. cell_at g (fst m) (snd m) = Inr (Some x)"
proof (induction ms arbitrary: g)
  case Nil
  then show ?case by simp
next
  case (Cons a ms)
  from Cons.prems(1) obtain x :: cell where x: "cell_at g (fst a) (snd a) = Inr (Some x)"
    and rest: "replay (remove_piece g (cell_id x)) ms = Some final"
    by (auto split: sum.splits option.splits if_splits)
  show ?case
  proof (cases "m = a")
    case True
    with x show ?thesis by blast
  next
    case False
    with Cons.prems(2) have "m \<in> set ms" by simp
    from Cons.IH [OF rest this] cell_at_remove_piece show ?thesis by blast
  qed
qed

lemma replay_counts:
  "replay g ms = Some final \<Longrightarrow> allEmpty final \<Longrightarrow>
     length ms = card (piece_ids g) \<and> distinct (map (move_id g) ms)
     \<and> set (map (move_id g) ms) = piece_ids g"
proof (induction ms arbitrary: g)
  case Nil
  then show ?case by (simp add: allEmpty_piece_ids)
next
  case (Cons a ms)
  from Cons.prems(1) obtain x :: cell where x: "cell_at g (fst a) (snd a) = Inr (Some x)"
    and rest: "replay (remove_piece g (cell_id x)) ms = Some final"
    by (auto split: sum.splits option.splits if_splits)
  let ?i = "cell_id x" and ?g' = "remove_piece g (cell_id x)"
  from Cons.IH [OF rest Cons.prems(2)]
  have len: "length ms = card (piece_ids ?g')" and dist: "distinct (map (move_id ?g') ms)"
    and ids: "set (map (move_id ?g') ms) = piece_ids ?g'" by simp_all
  have same: "map (move_id g) ms = map (move_id ?g') ms"
  proof (rule map_cong [OF refl])
    fix m assume "m \<in> set ms"
    from replay_moves_occupied [OF rest this] obtain y
      where y: "cell_at ?g' (fst m) (snd m) = Inr (Some y)" by blast
    from cell_at_remove_piece [OF y] y show "move_id g m = move_id ?g' m"
      by (simp add: move_id_def)
  qed
  have a: "move_id g a = ?i" using x by (simp add: move_id_def)
  have mem: "?i \<in> piece_ids g" by (rule cell_at_piece_ids [OF x])
  have fin: "finite (piece_ids g)" by (simp add: piece_ids_def)
  have "card (piece_ids g) = Suc (card (piece_ids g - {?i}))"
    by (rule card_Suc_Diff1 [OF fin mem, symmetric])
  note card = this
  have ids': "set (map (move_id g) ms) = piece_ids g - {?i}"
    using ids by (simp only: same piece_ids_remove_piece)
  have dist': "distinct (map (move_id g) ms)"
    using dist by (simp only: same)
  have "length (a # ms) = card (piece_ids g)"
    using len card by (simp add: piece_ids_remove_piece del: card_Diff_insert)
  moreover have "distinct (map (move_id g) (a # ms))"
    using dist' ids' a by simp
  moreover have "set (map (move_id g) (a # ms)) = piece_ids g"
  proof -
    have "set (map (move_id g) (a # ms)) = insert ?i (piece_ids g - {?i})"
      using ids' a by simp
    also have "\<dots> = piece_ids g" using mem by blast
    finally show ?thesis .
  qed
  ultimately show ?case by blast
qed

lemma solve_all_empty:
  assumes "g \<noteq> []" and "allEmpty g" and "1 \<le> cap"
  shows "findSolutionLimited g cap = Inr (Some [])"
proof -
  from assms(1) obtain row0 rest where g: "g = row0 # rest" by (cases g) auto
  have "bfs_step (length g) (length row0) cap
          \<lparr>visited = {serializeGrid g}, queue = [\<lparr>node_grid = cloneGrid g, node_seq = []\<rparr>],
           states = 0\<rparr> = Inl (Inr (Some [], 1))"
    using assms(2,3) by (simp add: bfs_step_def cloneGrid_id)
  then show ?thesis
    by (simp add: findSolutionLimited_def findSolutionLimited_run_def g bfs_loop.simps)
qed

text \<open>A board without a good move: the scan finds nothing.\<close>

lemma find_moves_none:
  assumes "rows \<le> length g" and "\<forall>r<rows. \<forall>c<cols. \<not> good_move g (r, c)"
  shows "find_moves rows cols g = Inr []"
  unfolding find_moves_def
proof (rule fold_invariant [where P = "\<lambda>acc. acc = Inr []"])
  show "(Inr [] :: error + (nat \<times> nat) list) = Inr []" by simp
next
  fix r and a :: "error + (nat \<times> nat) list"
  assume r: "r \<in> set [0..<rows]" and a: "a = Inr []"
  show "fold (find_moves_cell g r) [0..<cols] a = Inr []"
  proof (rule fold_invariant [where P = "\<lambda>acc. acc = Inr []"])
    show "a = Inr []" by (rule a)
  next
    fix c and b :: "error + (nat \<times> nat) list"
    assume c: "c \<in> set [0..<cols]" and b: "b = Inr []"
    from r assms(1) have rl: "r < length g" by simp
    from canExit_no_error [OF rl] obtain e where e: "canExit g r c = Inr e" by blast
    from r c assms(2) have "\<not> good_move g (r, c)" by simp
    with e rl b show "find_moves_cell g r c b = Inr []"
      by (auto simp: find_moves_cell_def good_move_def cell_at_def idx_def split: option.splits)
  qed
qed

lemma solve_stuck:
  assumes g: "g = row0 # rest" and ne: "\<not> allEmpty g"
    and stuck: "\<forall>r<length g. \<forall>c<length row0. \<not> good_move g (r, c)"
  shows "findSolutionLimited g cap = Inr None"
proof -
  let ?st0 = "\<lparr>visited = {serializeGrid g},
             queue = [\<lparr>node_grid = cloneGrid g, node_seq = []\<rparr>], states = 0\<rparr>"
  have fm: "find_moves (length g) (length row0) g = Inr []"
    by (rule find_moves_none [OF _ stuck]) simp
  show ?thesis
  proof (cases "cap < 1")
    case True
    then have "bfs_step (length g) (length row0) cap ?st0 = Inl (Inr (None, 1))"
      by (simp add: bfs_step_def)
    then show ?thesis
      by (simp add: findSolutionLimited_def findSolutionLimited_run_def g bfs_loop.simps)
  next
    case False
    then have one: "bfs_step (length g) (length row0) cap ?st0
                 = Inr \<lparr>visited = {serializeGrid g}, queue = [], states = 1\<rparr>"
      using ne fm by (simp add: bfs_step_def cloneGrid_id)
    have two: "bfs_step (length g) (length row0) cap
                 \<lparr>visited = {serializeGrid g}, queue = [], states = 1\<rparr> = Inl (Inr (None, 1))"
      by (simp add: bfs_step_def)
    have "bfs_loop (length g) (length row0) cap ?st0 = Inr (None, 1)"
      by (subst bfs_loop.simps, simp only: one sum.case, subst bfs_loop.simps,
          simp only: two sum.case)
    then show ?thesis
      by (simp add: findSolutionLimited_def findSolutionLimited_run_def g)
  qed
qed

section \<open>The scenario of two facing pieces\<close>

lemma facing_pair_cell_00:
  "cell_at (facing_pair_grid ia ib n m) 0 0
     = Inr (Some \<lparr>cell_id = ia, cell_dir = R, cell_len = 1, cell_head = True\<rparr>)"
  by (simp add: facing_pair_grid_def cell_at_def idx_def)

lemma facing_pair_cell_01:
  "cell_at (facing_pair_grid ia ib n m) 0 1
     = Inr (Some \<lparr>cell_id = ib, cell_dir = L, cell_len = 1, cell_head = True\<rparr>)"
  by (simp add: facing_pair_grid_def cell_at_def idx_def)

lemma facing_pair_row0:
  "facing_pair_grid ia ib n m ! 0 =
     Some \<lparr>cell_id = ia, cell_dir = R, cell_len = 1, cell_head = True\<rparr>
        # Some \<lparr>cell_id = ib, cell_dir = L, cell_len = 1, cell_head = True\<rparr>
        # replicate n None"
  by (simp add: facing_pair_grid_def)

lemma facing_pair_length: "0 < length (facing_pair_grid ia ib n m)"
  by (simp add: facing_pair_grid_def)

lemma facing_pair_canExit_right:
  assumes "ia \<noteq> ib"
  shows "canExit (facing_pair_grid ia ib n m) 0 0 = Inr False"
proof -
  let ?g = "facing_pair_grid ia ib n m"
  have "Suc 0 < length (?g ! 0)" by (simp add: facing_pair_row0)
  then have "[Suc 0..<length (?g ! 0)] = Suc 0 # [Suc (Suc 0)..<length (?g ! 0)]"
    by (rule upt_conv_Cons)
  then have pa: "path_cells ?g 0 0 R
                   = (0, Suc 0) # map (\<lambda>cc. (0, cc)) [Suc (Suc 0)..<length (?g ! 0)]"
    by (simp add: path_cells_def)
  have nf: "\<not> not_foreign ?g ia (0, Suc 0)"
    using assms by (simp add: not_foreign_pair facing_pair_row0 idx_def)
  have "canExit ?g 0 0 = Inr (list_all (not_foreign ?g ia) (path_cells ?g 0 0 R))"
    using canExit_path [OF facing_pair_length _ facing_pair_cell_00, of ia ib n m]
    by (simp add: facing_pair_row0)
  then show ?thesis by (simp only: pa list.pred_inject nf simp_thms)
qed

lemma facing_pair_canExit_left:
  assumes "ia \<noteq> ib"
  shows "canExit (facing_pair_grid ia ib n m) 0 (Suc 0) = Inr False"
proof -
  let ?g = "facing_pair_grid ia ib n m"
  have pb: "path_cells ?g 0 (Suc 0) L = [(0, 0)]"
    by (simp add: path_cells_def)
  have nf: "\<not> not_foreign ?g ib (0, 0)"
    using assms by (simp add: not_foreign_pair facing_pair_row0 idx_def)
  have "canExit ?g 0 (Suc 0) = Inr (list_all (not_foreign ?g ib) (path_cells ?g 0 (Suc 0) L))"
    using canExit_path [OF facing_pair_length _ facing_pair_cell_01, of ia ib n m]
    by (simp add: facing_pair_row0)
  then show ?thesis by (simp only: pb list.pred_inject nf simp_thms)
qed

lemma facing_pair_cells:
  assumes "cell_at (facing_pair_grid ia ib n m) r c = Inr (Some x)"
  shows "r = 0 \<and> (c = 0 \<or> c = Suc 0)"
proof -
  let ?g = "facing_pair_grid ia ib n m"
  from assms have rl: "r < length ?g" and cl: "c < length (?g ! r)"
    and x: "?g ! r ! c = Some x"
    by (auto simp: cell_at_def idx_def split: if_splits option.splits)
  have r: "r = 0"
  proof (rule ccontr)
    assume "r \<noteq> 0"
    then obtain r' where r': "r = Suc r'" by (cases r) auto
    with rl have "?g ! r = replicate (n + 2) None"
      by (simp add: facing_pair_grid_def del: replicate_Suc)
    with cl x show False by (simp del: replicate_Suc)
  qed
  have "c < 2"
  proof (rule ccontr)
    assume "\<not> c < 2"
    then obtain c' where c': "c = Suc (Suc c')" by (metis less_2_cases_iff not0_implies_Suc)
    with cl r have "?g ! r ! c = replicate n None ! c'" "c' < n"
      by (simp_all add: facing_pair_row0)
    with x show False by simp
  qed
  with r show ?thesis by auto
qed

lemma facing_pair_stuck:
  assumes "ia \<noteq> ib"
  shows "\<not> good_move (facing_pair_grid ia ib n m) (r, c)"
proof
  assume gm: "good_move (facing_pair_grid ia ib n m) (r, c)"
  then obtain x :: cell where x: "cell_at (facing_pair_grid ia ib n m) r c = Inr (Some x)"
    and ex: "canExit (facing_pair_grid ia ib n m) r c = Inr True"
    by (auto simp: good_move_def split: sum.splits option.splits)
  from facing_pair_cells [OF x] ex
    facing_pair_canExit_right [OF assms, of n m] facing_pair_canExit_left [OF assms, of n m]
  show False by auto
qed

lemma facing_pair_solve:
  assumes "ia \<noteq> ib"
  shows "findSolutionLimited (facing_pair_grid ia ib n m) cap = Inr None"
proof (rule solve_stuck)
  show "facing_pair_grid ia ib n m = (facing_pair_grid ia ib n m ! 0) # replicate m (replicate (n + 2) None)"
    by (simp add: facing_pair_grid_def)
  show "\<not> allEmpty (facing_pair_grid ia ib n m)"
    by (simp add: facing_pair_grid_def allEmpty_def)
  show "\<forall>r<length (facing_pair_grid ia ib n m). \<forall>c<length (facing_pair_grid ia ib n m ! 0).
          \<not> good_move (facing_pair_grid ia ib n m) (r, c)"
    using facing_pair_stuck [OF assms] by blast
qed

section \<open>Claims about the solver\<close>

text \<open>
  Claim C1 (solver soundness): if \<open>findSolutionLimited\<close> returns a move sequence, then
  playing the moves in order on the start grid, each move removing every cell that carries
  the id of the piece at the move's coordinate, is allowed at every step (\<open>canExit\<close> is
  true for the move's cell on the board just before the removal) and ends on the all-empty
  grid.
\<close>

theorem C1_solution_replays_to_empty:
  assumes "findSolutionLimited g cap = Inr (Some ms)"
  shows "\<exists>final. replay g ms = Some final \<and> allEmpty final"
  using assms by (rule solver_sound)

theorem C1_solution_replays_to_empty_witness:
  "findSolutionLimited single_piece_grid 20000 = Inr (Some [(0, 0)])
   \<and> (\<exists>final. replay single_piece_grid [(0, 0)] = Some final \<and> allEmpty final)"
proof -
  have run: "findSolutionLimited single_piece_grid 20000 = Inr (Some [(0, 0)])"
    by code_simp
  from C1_solution_replays_to_empty [OF run] run show ?thesis by simp
qed

text \<open>
  Claim C4 (solver termination): on every start grid with at least one row and for every
  state cap \<open>cap \<ge> 0\<close>, \<open>findSolutionLimited\<close> returns a value (the search loop is a
  total function and no error is thrown); the counter \<open>states\<close> of dequeued nodes ends at
  most at \<open>cap + 1\<close>, and once it has passed \<open>cap\<close> the value returned is not-found.
\<close>

theorem C4_solver_returns_within_cap:
  assumes "g \<noteq> []" and "0 \<le> cap"
  shows "\<exists>r n. findSolutionLimited_run g cap = Inr (r, n) \<and> findSolutionLimited g cap = Inr r
           \<and> int n \<le> cap + 1 \<and> (cap < int n \<longrightarrow> r = None)"
proof -
  from assms(1) obtain row0 rest where g: "g = row0 # rest" by (cases g) auto
  from run_result [OF g, of cap] obtain r n
    where "findSolutionLimited_run g cap = Inr (r, n)" "int n \<le> max cap 0 + 1"
      "cap < int n \<longrightarrow> r = None"
    by blast
  with assms(2) show ?thesis by (auto simp: findSolutionLimited_def)
qed

theorem C4_solver_returns_within_cap_witness:
  "single_piece_grid \<noteq> [] \<and> (0::int) \<le> 1
   \<and> findSolutionLimited_run single_piece_grid 1 = Inr (None, 2)
   \<and> (\<exists>r n. findSolutionLimited_run single_piece_grid 1 = Inr (r, n)
          \<and> findSolutionLimited single_piece_grid 1 = Inr r
          \<and> int n \<le> 1 + 1 \<and> (1 < int n \<longrightarrow> r = None))"
proof -
  have a: "single_piece_grid \<noteq> []" by (simp add: single_piece_grid_def)
  have b: "(0::int) \<le> 1" by simp
  have c: "findSolutionLimited_run single_piece_grid 1 = Inr (None, 2)" by code_simp
  from C4_solver_returns_within_cap [OF a b] a b c show ?thesis by blast
qed

text \<open>
  Claim C8 (scenario): on a board whose only pieces are a length-1 piece at \<open>(0, 0)\<close>
  pointing right and a length-1 piece at \<open>(0, 1)\<close> pointing left, \<open>canExit\<close> is false for
  both heads and \<open>findSolutionLimited\<close> returns not-found, whatever the cap.
\<close>

theorem C8_facing_pair_blocked:
  assumes "ia \<noteq> ib"
  shows "canExit (facing_pair_grid ia ib n m) 0 0 = Inr False
       \<and> canExit (facing_pair_grid ia ib n m) 0 1 = Inr False
       \<and> findSolutionLimited (facing_pair_grid ia ib n m) cap = Inr None"
  using facing_pair_canExit_right [OF assms, of n m] facing_pair_canExit_left [OF assms, of n m]
    facing_pair_solve [OF assms, of n m cap]
  by simp

theorem C8_facing_pair_blocked_witness:
  "(1::nat) \<noteq> 2
   \<and> facing_pair_grid 1 2 0 1 =
       [[Some \<lparr>cell_id = 1, cell_dir = R, cell_len = 1, cell_head = True\<rparr>,
         Some \<lparr>cell_id = 2, cell_dir = L, cell_len = 1, cell_head = True\<rparr>],
        [None, None]]
   \<and> canExit (facing_pair_grid 1 2 0 1) 0 0 = Inr False
   \<and> canExit (facing_pair_grid 1 2 0 1) 0 1 = Inr False
   \<and> findSolutionLimited (facing_pair_grid 1 2 0 1) 20000 = Inr None"
proof -
  have a: "(1::nat) \<noteq> 2" by simp
  have b: "facing_pair_grid 1 2 0 1 =
       [[Some \<lparr>cell_id = 1, cell_dir = R, cell_len = 1, cell_head = True\<rparr>,
         Some \<lparr>cell_id = 2, cell_dir = L, cell_len = 1, cell_head = True\<rparr>],
        [None, None]]"
    by (simp add: facing_pair_grid_def)
  from C8_facing_pair_blocked [OF a, of 0 1 20000] a b show ?thesis by simp
qed

text \<open>
  Claim C10: whenever \<open>findSolutionLimited\<close> returns a move sequence for a start grid, its
  length is the number of distinct piece ids on the start grid, the moves name pairwise
  distinct piece ids (and every id of the grid is named); on a start grid with at least one
  row that is already all-empty, with a cap of at least 1, the empty sequence is returned.
\<close>

theorem C10_solution_one_move_per_piece:
  "(findSolutionLimited g cap = Inr (Some ms) \<longrightarrow>
      length ms = card (piece_ids g) \<and> distinct (map (move_id g) ms)
      \<and> set (map (move_id g) ms) = piece_ids g)
   \<and> (g \<noteq> [] \<and> allEmpty g \<and> 1 \<le> cap \<longrightarrow> findSolutionLimited g cap = Inr (Some []))"
proof (intro conjI impI)
  assume "findSolutionLimited g cap = Inr (Some ms)"
  from solver_sound [OF this] obtain final
    where f: "replay g ms = Some final" "allEmpty final" by blast
  from replay_counts [OF f]
  show "length ms = card (piece_ids g)" and "distinct (map (move_id g) ms)"
    and "set (map (move_id g) ms) = piece_ids g"
    by simp_all
next
  assume "g \<noteq> [] \<and> allEmpty g \<and> 1 \<le> cap"
  then show "findSolutionLimited g cap = Inr (Some [])"
    by (simp add: solve_all_empty)
qed

theorem C10_solution_one_move_per_piece_witness:
  "findSolutionLimited single_piece_grid 20000 = Inr (Some [(0, 0)])
   \<and> length [(0::nat, 0::nat)] = card (piece_ids single_piece_grid)
   \<and> piece_ids single_piece_grid = {1}
   \<and> [[None, None], [None, None]] \<noteq> ([] :: grid) \<and> allEmpty [[None, None], [None, None]]
   \<and> findSolutionLimited [[None, None], [None, None]] 1 = Inr (Some [])"
proof -
  have run: "findSolutionLimited single_piece_grid 20000 = Inr (Some [(0, 0)])"
    by code_simp
  have ids: "piece_ids single_piece_grid = {1}"
    by (simp add: piece_ids_def ids_list_def single_piece_grid_def)
  have e: "[[None, None], [None, None]] \<noteq> ([] :: grid) \<and> allEmpty [[None, None], [None, None]]
             \<and> (1::int) \<le> 1"
    by (simp add: allEmpty_def)
  from C10_solution_one_move_per_piece [of single_piece_grid 20000 "[(0, 0)]"] run
  have "length [(0::nat, 0::nat)] = card (piece_ids single_piece_grid)" by blast
  moreover from C10_solution_one_move_per_piece [of "[[None, None], [None, None]]" 1] e
  have "findSolutionLimited [[None, None], [None, None]] 1 = Inr (Some [])" by blast
  ultimately show ?thesis using run ids e by blast
qed

section \<open>The canonical key\<close>

lemma digit_char_code:
  assumes "n < 10"
  shows "(of_char (digit_char n) :: nat) = 48 + n"
proof -
  have codes: "map (of_char :: char \<Rightarrow> nat) ''0123456789'' = map (\<lambda>k. 48 + k) [0..<10]"
    by code_simp
  have "(of_char (digit_char n) :: nat) = map of_char ''0123456789'' ! n"
    using assms by (simp only: digit_char_def) (subst nth_map, simp_all)
  also have "\<dots> = map (\<lambda>k. 48 + k) [0..<10] ! n" by (simp only: codes)
  also have "\<dots> = 48 + n" using assms by (subst nth_map) simp_all
  finally show ?thesis .
qed

lemma digit_char_not_sep:
  assumes "n < 10"
  shows "digit_char n \<noteq> CHR '','' \<and> digit_char n \<noteq> CHR '';''"
proof -
  have "(of_char (digit_char n) :: nat) \<noteq> of_char (CHR '','')"
    and "(of_char (digit_char n) :: nat) \<noteq> of_char (CHR '';'')"
    using assms by (simp_all add: digit_char_code)
  then show ?thesis by auto
qed

lemma digit_char_inj:
  assumes "n < 10" and "m < 10" and "digit_char n = digit_char m"
  shows "n = m"
proof -
  from assms(3) have "(of_char (digit_char n) :: nat) = of_char (digit_char m)" by simp
  with assms(1,2) show ?thesis by (simp add: digit_char_code)
qed

lemma string_of_nat_nonempty: "string_of_nat n \<noteq> []"
  by (subst string_of_nat.simps) simp

lemma string_of_nat_no_sep:
  "CHR '','' \<notin> set (string_of_nat n) \<and> CHR '';'' \<notin> set (string_of_nat n)"
proof (induction n rule: string_of_nat.induct)
  case (1 n)
  have m: "n mod 10 < 10" by simp
  show ?case
  proof (cases "n < 10")
    case True
    with digit_char_not_sep [OF True] show ?thesis
      by (subst (1 2) string_of_nat.simps) auto
  next
    case False
    with "1.IH" digit_char_not_sep [OF m] show ?thesis
      by (subst (1 2) string_of_nat.simps) auto
  qed
qed

lemma string_of_nat_inj: "string_of_nat n = string_of_nat m \<Longrightarrow> n = m"
proof (induction n arbitrary: m rule: string_of_nat.induct)
  case (1 n)
  have n10: "n mod 10 < 10" and m10: "m mod 10 < 10" by simp_all
  show ?case
  proof (cases "n < 10")
    case n: True
    show ?thesis
    proof (cases "m < 10")
      case True
      with n "1.prems" show ?thesis
        by (simp add: string_of_nat.simps [of n] string_of_nat.simps [of m] digit_char_inj)
    next
      case False
      with n "1.prems" string_of_nat_nonempty [of "m div 10"] show ?thesis
        by (simp add: string_of_nat.simps [of n] string_of_nat.simps [of m])
    qed
  next
    case n: False
    show ?thesis
    proof (cases "m < 10")
      case True
      with n "1.prems" string_of_nat_nonempty [of "n div 10"] show ?thesis
        by (simp add: string_of_nat.simps [of n] string_of_nat.simps [of m])
    next
      case False
      with n "1.prems" have d: "string_of_nat (n div 10) = string_of_nat (m div 10)"
        and r: "digit_char (n mod 10) = digit_char (m mod 10)"
        by (simp_all add: string_of_nat.simps [of n] string_of_nat.simps [of m])
      from "1.IH" [OF n d] have "n div 10 = m div 10" .
      moreover from digit_char_inj [OF n10 m10 r] have "n mod 10 = m mod 10" .
      ultimately show ?thesis by (metis div_mult_mod_eq)
    qed
  qed
qed

lemma split_at_sep:
  "sep \<notin> set x \<Longrightarrow> sep \<notin> set y \<Longrightarrow> x @ sep # u = y @ sep # v \<Longrightarrow> x = y \<and> u = v"
proof (induction x arbitrary: y)
  case Nil
  then show ?case by (cases y) auto
next
  case (Cons a x)
  then show ?case by (cases y) auto
qed

lemma join_inj:
  assumes "length xs = length ys"
    and "\<forall>x\<in>set xs. sep \<notin> set x" and "\<forall>y\<in>set ys. sep \<notin> set y"
    and "join sep xs = join sep ys"
  shows "xs = ys"
  using assms
proof (induction xs ys rule: list_induct2)
  case Nil
  then show ?case by simp
next
  case (Cons x xs y ys)
  show ?case
  proof (cases xs)
    case Nil
    with Cons show ?thesis by simp
  next
    case xs: (Cons x' xs')
    with Cons.hyps obtain y' ys' where ys: "ys = y' # ys'" by (cases ys) auto
    from Cons.prems xs ys
    have "x @ sep # join sep xs = y @ sep # join sep ys" "sep \<notin> set x" "sep \<notin> set y"
      by simp_all
    from split_at_sep [OF this(2,3,1)] have "x = y" "join sep xs = join sep ys" by simp_all
    with Cons.IH Cons.prems show ?thesis by simp
  qed
qed

lemma join_no_other_sep:
  "\<forall>x\<in>set xs. c \<notin> set x \<Longrightarrow> c \<noteq> sep \<Longrightarrow> c \<notin> set (join sep xs)"
  by (induction sep xs rule: join.induct) auto

lemma row_key_inj:
  assumes "length row1 = length row2"
    and "join (CHR '','') (map (\<lambda>c. string_of_nat (cell_code c)) row1)
           = join (CHR '','') (map (\<lambda>c. string_of_nat (cell_code c)) row2)"
  shows "map cell_code row1 = map cell_code row2"
proof -
  have "map (\<lambda>c. string_of_nat (cell_code c)) row1 = map (\<lambda>c. string_of_nat (cell_code c)) row2"
  proof (rule join_inj [where sep = "CHR '',''"])
    show "length (map (\<lambda>c. string_of_nat (cell_code c)) row1)
            = length (map (\<lambda>c. string_of_nat (cell_code c)) row2)"
      using assms(1) by simp
    show "\<forall>x\<in>set (map (\<lambda>c. string_of_nat (cell_code c)) row1). CHR '','' \<notin> set x"
      by (simp add: string_of_nat_no_sep)
    show "\<forall>y\<in>set (map (\<lambda>c. string_of_nat (cell_code c)) row2). CHR '','' \<notin> set y"
      by (simp add: string_of_nat_no_sep)
    show "join (CHR '','') (map (\<lambda>c. string_of_nat (cell_code c)) row1)
            = join (CHR '','') (map (\<lambda>c. string_of_nat (cell_code c)) row2)"
      by (rule assms(2))
  qed
  then have "map string_of_nat (map cell_code row1) = map string_of_nat (map cell_code row2)"
    by (simp add: comp_def)
  moreover have "inj string_of_nat" by (rule injI) (rule string_of_nat_inj)
  ultimately show ?thesis by (simp only: inj_map_eq_map)
qed

lemma serializeGrid_inj:
  assumes dims: "map length g1 = map length g2"
    and key: "serializeGrid g1 = serializeGrid g2"
  shows "map (map cell_code) g1 = map (map cell_code) g2"
proof -
  let ?k = "\<lambda>row. join (CHR '','') (map (\<lambda>c. string_of_nat (cell_code c)) row)"
  from dims have len: "length g1 = length g2" by (rule map_eq_imp_length_eq)
  have nosep: "CHR '';'' \<notin> set (?k row)" for row
    by (rule join_no_other_sep) (simp_all add: string_of_nat_no_sep)
  have "map ?k g1 = map ?k g2"
  proof (rule join_inj [where sep = "CHR '';''"])
    show "length (map ?k g1) = length (map ?k g2)" using len by simp
    show "\<forall>x\<in>set (map ?k g1). CHR '';'' \<notin> set x" using nosep by simp
    show "\<forall>y\<in>set (map ?k g2). CHR '';'' \<notin> set y" using nosep by simp
    show "join (CHR '';'') (map ?k g1) = join (CHR '';'') (map ?k g2)"
      using key by (simp only: serializeGrid_def)
  qed
  then have keys: "map ?k g1 ! r = map ?k g2 ! r" for r by simp
  have rows: "?k (g1 ! r) = ?k (g2 ! r)" if "r < length g1" for r
    using keys [of r] that len by simp
  show ?thesis
  proof (rule nth_equalityI)
    show "length (map (map cell_code) g1) = length (map (map cell_code) g2)" using len by simp
  next
    fix r assume "r < length (map (map cell_code) g1)"
    then have r: "r < length g1" by simp
    from dims have "map length g1 ! r = map length g2 ! r" by simp
    with r len have "length (g1 ! r) = length (g2 ! r)" by simp
    from row_key_inj [OF this rows [OF r]] r len
    show "map (map cell_code) g1 ! r = map (map cell_code) g2 ! r" by simp
  qed
qed

lemma serializeGrid_codes:
  "serializeGrid g =
     join (CHR '';'') (map (\<lambda>codes. join (CHR '','') (map string_of_nat codes)) (map (map cell_code) g))"
  by (simp add: serializeGrid_def comp_def)

text \<open>
  Claim C6: \<open>serializeGrid\<close> is a function of the grid alone, and for two grids of the
  same dimensions the keys are equal iff every cell holds the same piece id (0 for an empty
  cell) in both; direction, length and head flag of a segment do not enter the key.
\<close>

theorem C6_key_equal_iff_same_ids:
  assumes "map length g1 = map length g2"
  shows "serializeGrid g1 = serializeGrid g2
           \<longleftrightarrow> map (map cell_code) g1 = map (map cell_code) g2"
proof
  assume "serializeGrid g1 = serializeGrid g2"
  with assms show "map (map cell_code) g1 = map (map cell_code) g2" by (rule serializeGrid_inj)
next
  assume "map (map cell_code) g1 = map (map cell_code) g2"
  then show "serializeGrid g1 = serializeGrid g2" by (simp only: serializeGrid_codes)
qed

theorem C6_key_equal_iff_same_ids_witness:
  "map length single_piece_grid
     = map length [[Some \<lparr>cell_id = 1, cell_dir = U, cell_len = 3, cell_head = False\<rparr>, None],
                   [None, None]]
   \<and> single_piece_grid
       \<noteq> [[Some \<lparr>cell_id = 1, cell_dir = U, cell_len = 3, cell_head = False\<rparr>, None],
           [None, None]]
   \<and> serializeGrid single_piece_grid
       = serializeGrid [[Some \<lparr>cell_id = 1, cell_dir = U, cell_len = 3, cell_head = False\<rparr>, None],
                        [None, None]]
   \<and> serializeGrid single_piece_grid = ''1,0;0,0''"
proof -
  let ?g2 = "[[Some \<lparr>cell_id = 1, cell_dir = U, cell_len = 3, cell_head = False\<rparr>, None],
              [None, None]]"
  have dims: "map length single_piece_grid = map length ?g2"
    by (simp add: single_piece_grid_def)
  have codes: "map (map cell_code) single_piece_grid = map (map cell_code) ?g2"
    by (simp add: single_piece_grid_def cell_code_def)
  have ne: "single_piece_grid \<noteq> ?g2" by (simp add: single_piece_grid_def)
  have key: "serializeGrid single_piece_grid = ''1,0;0,0''" by code_simp
  from C6_key_equal_iff_same_ids [OF dims] codes
  have "serializeGrid single_piece_grid = serializeGrid ?g2" by simp
  with dims ne key show ?thesis by simp
qed

section \<open>The level generator\<close>

lemma gen_cell_density_zero:
  assumes "\<forall>n. 0 \<le> rnd n" and "r < rows" and "c < cols"
  shows "\<exists>st'. gen_cell rnd rows cols 0 maxLen r c (Inr (replicate rows (replicate cols None), st))
           = Inr (replicate rows (replicate cols None), st')"
  using assms by (simp add: gen_cell_def)

lemma build_candidate_density_zero:
  assumes "\<forall>n. 0 \<le> rnd n"
  shows "\<exists>st'. build_candidate rnd rows cols 0 maxLen st
           = Inr (replicate rows (replicate cols None), st')"
  unfolding build_candidate_def
proof (rule fold_invariant
    [where P = "\<lambda>acc. \<exists>st'. acc = Inr (replicate rows (replicate cols None), st')"])
  show "\<exists>st'. Inr (replicate rows (replicate cols None), st)
           = Inr (replicate rows (replicate cols None), st')"
    by simp
next
  fix r and a :: "error + grid \<times> gen_state"
  assume r: "r \<in> set [0..<rows]"
    and a: "\<exists>st'. a = Inr (replicate rows (replicate cols None), st')"
  show "\<exists>st'. fold (gen_cell rnd rows cols 0 maxLen r) [0..<cols] a
           = Inr (replicate rows (replicate cols None), st')"
  proof (rule fold_invariant
      [where P = "\<lambda>acc. \<exists>st'. acc = Inr (replicate rows (replicate cols None), st')"])
    show "\<exists>st'. a = Inr (replicate rows (replicate cols None), st')" by (rule a)
  next
    fix c and b :: "error + grid \<times> gen_state"
    assume c: "c \<in> set [0..<cols]"
      and "\<exists>st'. b = Inr (replicate rows (replicate cols None), st')"
    then obtain st1 where "b = Inr (replicate rows (replicate cols None), st1)" by blast
    with gen_cell_density_zero [OF assms, of r rows c cols maxLen st1] r c
    show "\<exists>st'. gen_cell rnd rows cols 0 maxLen r c b
            = Inr (replicate rows (replicate cols None), st')"
      by simp
  qed
qed

lemma hasArrow_empty: "\<not> hasArrow (replicate rows (replicate cols None))"
  by (auto simp: hasArrow_def list_ex_iff)

lemma gen_attempts_density_zero:
  assumes "\<forall>n. 0 \<le> rnd n"
  shows "gen_attempts rnd rows cols 0 maxLen k st = Inr None"
proof (induction k arbitrary: st)
  case 0
  show ?case by simp
next
  case (Suc k)
  from build_candidate_density_zero [OF assms, of rows cols maxLen st] obtain st'
    where "build_candidate rnd rows cols 0 maxLen st = Inr (replicate rows (replicate cols None), st')"
    by blast
  with Suc.IH [of st'] show ?case by (simp add: hasArrow_empty)
qed

lemma fallback_piece:
  assumes "1 \<le> rows" and "2 \<le> cols"
  shows "fallback rows cols =
           (Some \<lparr>cell_id = 1, cell_dir = R, cell_len = 1, cell_head = True\<rparr>
              # Some \<lparr>cell_id = 1, cell_dir = R, cell_len = 1, cell_head = False\<rparr>
              # replicate (cols - 2) None)
           # replicate (rows - 1) (replicate cols None)"
proof -
  from assms obtain r' c' where "rows = Suc r'" "cols = Suc (Suc c')"
    by (metis One_nat_def Suc_le_D numeral_2_eq_2 Suc_le_mono)
  then show ?thesis by (simp add: fallback_def)
qed

lemma fallback_empty:
  assumes "rows = 0 \<or> cols \<le> 1"
  shows "fallback rows cols = replicate rows (replicate cols None)"
  using assms by (auto simp: fallback_def)

lemma const_rnd_nonneg: "\<forall>n. 0 \<le> const_rnd (1 / 2) n"
  by (simp add: const_rnd_def)

text \<open>
  Claim C5, as worded, says that with at most one column the fallback is a lone single-cell
  piece. With density 0 every attempt of \<open>generateRandomLevelAsync(2, 1, 0, 2, 500)\<close> is
  rejected, and the fallback that comes back has no occupied cell at all.
\<close>

theorem C5_one_column_fallback_counterexample:
  "gen_attempts (const_rnd (1 / 2)) 2 1 0 2 500 \<lparr>rnd_pos = 0, idCounter = 1\<rparr> = Inr None
   \<and> generateRandomLevelAsync (const_rnd (1 / 2)) 2 1 0 2 500 = Inr [[None], [None]]
   \<and> ids_list [[None], [None]] = []"
proof -
  have fail: "gen_attempts (const_rnd (1 / 2)) 2 1 0 2 500 \<lparr>rnd_pos = 0, idCounter = 1\<rparr>
                = Inr None"
    by (rule gen_attempts_density_zero [OF const_rnd_nonneg])
  have fb: "fallback 2 1 = [[None], [None]]" by code_simp
  have "ids_list [[None], [None]] = []" by (simp add: ids_list_def)
  with fail fb show ?thesis by (simp add: generateRandomLevelAsync_def)
qed

text \<open>
  Claim C5, amended: when all \<open>max_attempts\<close> candidate constructions fail, the generator
  returns the deterministic fallback: for at least 1 row and at least 2 columns a single
  1x2 horizontal piece with direction Right, length 1 and head at column 0, on the cells
  \<open>(0, 0)\<close> and \<open>(0, 1)\<close>, every other cell empty; and when there is no row or at most one
  column, the all-empty grid.
\<close>

theorem C5_fallback_when_attempts_fail:
  assumes "gen_attempts rnd rows cols density maxLen maxAttempts \<lparr>rnd_pos = 0, idCounter = 1\<rparr>
             = Inr None"
  shows "generateRandomLevelAsync rnd rows cols density maxLen maxAttempts = Inr (fallback rows cols)
       \<and> (1 \<le> rows \<and> 2 \<le> cols \<longrightarrow>
            fallback rows cols =
              (Some \<lparr>cell_id = 1, cell_dir = R, cell_len = 1, cell_head = True\<rparr>
                 # Some \<lparr>cell_id = 1, cell_dir = R, cell_len = 1, cell_head = False\<rparr>
                 # replicate (cols - 2) None)
              # replicate (rows - 1) (replicate cols None))
       \<and> (rows = 0 \<or> cols \<le> 1 \<longrightarrow> fallback rows cols = replicate rows (replicate cols None))"
  using assms fallback_piece [of rows cols] fallback_empty [of rows cols]
  by (simp add: generateRandomLevelAsync_def)

theorem C5_fallback_when_attempts_fail_witness:
  "gen_attempts (const_rnd (1 / 2)) 2 3 0 2 3 \<lparr>rnd_pos = 0, idCounter = 1\<rparr> = Inr None
   \<and> generateRandomLevelAsync (const_rnd (1 / 2)) 2 3 0 2 3 =
       Inr [[Some \<lparr>cell_id = 1, cell_dir = R, cell_len = 1, cell_head = True\<rparr>,
             Some \<lparr>cell_id = 1, cell_dir = R, cell_len = 1, cell_head = False\<rparr>, None],
            [None, None, None]]
   \<and> gen_attempts (const_rnd (1 / 2)) 2 1 0 2 3 \<lparr>rnd_pos = 0, idCounter = 1\<rparr> = Inr None
   \<and> generateRandomLevelAsync (const_rnd (1 / 2)) 2 1 0 2 3 = Inr [[None], [None]]"
proof -
  have a: "gen_attempts (const_rnd (1 / 2)) 2 3 0 2 3 \<lparr>rnd_pos = 0, idCounter = 1\<rparr> = Inr None"
    by code_simp
  have b: "gen_attempts (const_rnd (1 / 2)) 2 1 0 2 3 \<lparr>rnd_pos = 0, idCounter = 1\<rparr> = Inr None"
    by code_simp
  have fb3: "fallback 2 3 =
       [[Some \<lparr>cell_id = 1, cell_dir = R, cell_len = 1, cell_head = True\<rparr>,
         Some \<lparr>cell_id = 1, cell_dir = R, cell_len = 1, cell_head = False\<rparr>, None],
        [None, None, None]]"
    by code_simp
  have fb1: "fallback 2 1 = [[None], [None]]" by code_simp
  from C5_fallback_when_attempts_fail [OF a]
  have "generateRandomLevelAsync (const_rnd (1 / 2)) 2 3 0 2 3 = Inr (fallback 2 3)"
    by (rule conjunct1)
  then have "generateRandomLevelAsync (const_rnd (1 / 2)) 2 3 0 2 3 =
       Inr [[Some \<lparr>cell_id = 1, cell_dir = R, cell_len = 1, cell_head = True\<rparr>,
             Some \<lparr>cell_id = 1, cell_dir = R, cell_len = 1, cell_head = False\<rparr>, None],
            [None, None, None]]"
    by (simp only: fb3)
  moreover from C5_fallback_when_attempts_fail [OF b]
  have "generateRandomLevelAsync (const_rnd (1 / 2)) 2 1 0 2 3 = Inr (fallback 2 1)"
    by (rule conjunct1)
  then have "generateRandomLevelAsync (const_rnd (1 / 2)) 2 1 0 2 3 = Inr [[None], [None]]"
    by (simp only: fb1)
  ultimately show ?thesis using a b by blast
qed

text \<open>
  The random placement writes as many cells as the length it records: the positions
  collected for a piece are one per step of the loop, the first one the sampled cell.
\<close>

lemma piece_positions_length:
  "piece_positions g rows cols r c v ks = Some ps \<Longrightarrow> length ps = length ks"
  by (induction ks arbitrary: ps) (auto simp: Let_def split: if_splits)

lemma piece_positions_head:
  "piece_positions g rows cols r c v (0 # ks) = Some ps \<Longrightarrow> hd ps = (r, c)"
  by (auto simp: Let_def split: if_splits)

lemma accepted_attempt_example:
  "generateRandomLevelAsync (const_rnd (1 / 2)) 2 2 (9 / 10) 2 3 =
     Inr [[Some \<lparr>cell_id = 1, cell_dir = L, cell_len = 2, cell_head = True\<rparr>,
           Some \<lparr>cell_id = 1, cell_dir = L, cell_len = 2, cell_head = False\<rparr>],
          [Some \<lparr>cell_id = 2, cell_dir = L, cell_len = 2, cell_head = True\<rparr>,
           Some \<lparr>cell_id = 2, cell_dir = L, cell_len = 2, cell_head = False\<rparr>]]
   \<and> grid_invariant
         [[Some \<lparr>cell_id = 1, cell_dir = L, cell_len = 2, cell_head = True\<rparr>,
           Some \<lparr>cell_id = 1, cell_dir = L, cell_len = 2, cell_head = False\<rparr>],
          [Some \<lparr>cell_id = 2, cell_dir = L, cell_len = 2, cell_head = True\<rparr>,
           Some \<lparr>cell_id = 2, cell_dir = L, cell_len = 2, cell_head = False\<rparr>]]"
  by code_simp

text \<open>
  Claim C3 (generator validity, fallback included) against the code: with density 0, which
  the settings slider allows, \<open>generateRandomLevelAsync(4, 4, 0, 2, 500)\<close> rejects every
  attempt and returns the fallback. Its piece 1 occupies the two cells \<open>(0, 0)\<close> and
  \<open>(0, 1)\<close> while both segments record length 1, so the grid invariant does not hold.
\<close>

theorem C3_fallback_breaks_invariant:
  "generateRandomLevelAsync (const_rnd (1 / 2)) 4 4 0 2 500 = Inr (fallback 4 4)
   \<and> cells_of (fallback 4 4) 1 = [(0, 0), (0, 1)]
   \<and> map cell_len (segments_of (fallback 4 4) 1) = [1, 1]
   \<and> \<not> grid_invariant (fallback 4 4)"
proof -
  have "gen_attempts (const_rnd (1 / 2)) 4 4 0 2 500 \<lparr>rnd_pos = 0, idCounter = 1\<rparr> = Inr None"
    by (rule gen_attempts_density_zero [OF const_rnd_nonneg])
  then have "generateRandomLevelAsync (const_rnd (1 / 2)) 4 4 0 2 500 = Inr (fallback 4 4)"
    by (simp add: generateRandomLevelAsync_def)
  moreover have "cells_of (fallback 4 4) 1 = [(0, 0), (0, 1)]" by code_simp
  moreover have "map cell_len (segments_of (fallback 4 4) 1) = [1, 1]" by code_simp
  moreover have "\<not> grid_invariant (fallback 4 4)" by code_simp
  ultimately show ?thesis by blast
qed

section \<open>The solver leaves its input alone\<close>

lemma alloc_row_frame:
  "alloc_row h row = (h1, a) \<Longrightarrow>
     a = next_free h \<and> next_free h1 = Suc (next_free h) \<and> (\<forall>b<next_free h. mem h1 b = mem h b)"
  by (auto simp: alloc_row_def)

lemma cloneState_h_frame:
  "cloneState_h h g = (h1, ng) \<Longrightarrow>
     next_free h \<le> next_free h1 \<and> (\<forall>b<next_free h. mem h1 b = mem h b)
     \<and> (\<forall>a\<in>set ng. next_free h \<le> a)"
proof (induction g arbitrary: h h1 ng)
  case Nil
  then show ?case by simp
next
  case (Cons a as)
  obtain h2 a' where al: "alloc_row h (map (\<lambda>c. case c of Some x \<Rightarrow> Some x | None \<Rightarrow> None) (mem h a)) = (h2, a')"
    by (cases "alloc_row h (map (\<lambda>c. case c of Some x \<Rightarrow> Some x | None \<Rightarrow> None) (mem h a))") blast
  obtain h3 as' where cl: "cloneState_h h2 as = (h3, as')"
    by (cases "cloneState_h h2 as") blast
  from Cons.prems al cl have h1: "h1 = h3" and ng: "ng = a' # as'" by simp_all
  from alloc_row_frame [OF al] Cons.IH [OF cl] show ?case
    unfolding h1 ng by auto
qed

lemma cloneState_h_unchanged:
  assumes "unchanged_below n0 h0 h" and "cloneState_h h g = (h1, ng)"
  shows "unchanged_below n0 h0 h1 \<and> (\<forall>a\<in>set ng. n0 \<le> a)"
  using assms(1) cloneState_h_frame [OF assms(2)]
  by (auto simp: unchanged_below_def)

lemma removeId_cell_h_unchanged:
  assumes fresh: "\<forall>a\<in>set ng. n0 \<le> a"
    and acc: "case acc of Inl e \<Rightarrow> True | Inr h \<Rightarrow> unchanged_below n0 h0 h"
  shows "case removeId_cell_h i ng r c acc of Inl e \<Rightarrow> True | Inr h \<Rightarrow> unchanged_below n0 h0 h"
proof (cases acc)
  case (Inl e)
  then show ?thesis by (simp add: removeId_cell_h_def)
next
  case (Inr h)
  with acc have u: "unchanged_below n0 h0 h" by simp
  show ?thesis
  proof (cases "idx ng r")
    case None
    with Inr show ?thesis by (simp add: removeId_cell_h_def)
  next
    case (Some a)
    then have "a \<in> set ng" by (auto simp: idx_def split: if_splits)
    with fresh have "n0 \<le> a" by blast
    with u Inr Some show ?thesis
      by (auto simp: removeId_cell_h_def unchanged_below_def split: option.splits)
  qed
qed

lemma removeId_h_unchanged:
  assumes u: "unchanged_below n0 h0 h" and rm: "removeId_h rows cols h g i = Inr (h', ng)"
  shows "unchanged_below n0 h0 h'"
proof -
  obtain h1 ng1 where cl: "cloneState_h h g = (h1, ng1)" by (cases "cloneState_h h g") blast
  from cloneState_h_unchanged [OF u cl]
  have u1: "unchanged_below n0 h0 h1" and fresh: "\<forall>a\<in>set ng1. n0 \<le> a" by simp_all
  let ?P = "\<lambda>acc. case acc of Inl e \<Rightarrow> True | Inr h \<Rightarrow> unchanged_below n0 h0 h"
  have "?P (fold (\<lambda>r acc. fold (\<lambda>c. removeId_cell_h i ng1 r c) [0..<cols] acc) [0..<rows] (Inr h1))"
  proof (rule fold_invariant [where P = ?P])
    show "?P (Inr h1)" using u1 by simp
  next
    fix r and a :: "error + heap"
    assume "?P a"
    then show "?P (fold (removeId_cell_h i ng1 r) [0..<cols] a)"
    proof (rule fold_invariant [where P = ?P])
      fix c and b :: "error + heap"
      assume "?P b"
      then show "?P (removeId_cell_h i ng1 r c b)"
        by (rule removeId_cell_h_unchanged [OF fresh])
    qed
  qed
  with rm cl show ?thesis by (auto simp: removeId_h_def split: sum.splits)
qed

lemma expand_move_h_unchanged:
  assumes "case acc of Inl e \<Rightarrow> True | Inr (vis, q, h) \<Rightarrow> unchanged_below n0 h0 h"
  shows "case expand_move_h rows cols nd m acc of
           Inl e \<Rightarrow> True | Inr (vis, q, h) \<Rightarrow> unchanged_below n0 h0 h"
proof (cases acc)
  case (Inl e)
  then show ?thesis by (simp add: expand_move_h_def)
next
  case (Inr t)
  obtain vis q h where t: "t = (vis, q, h)" by (cases t) auto
  with Inr assms have u: "unchanged_below n0 h0 h" by simp
  show ?thesis
    using removeId_h_unchanged [OF u]
    by (auto simp: expand_move_h_def Inr t split: sum.splits option.splits)
qed

lemma bfs_step_h_unchanged:
  assumes u: "unchanged_below n0 h0 (heap_h st)"
  shows "case bfs_step_h rows cols cap st of
           Inl (Inl e) \<Rightarrow> True
         | Inl (Inr (r, h)) \<Rightarrow> unchanged_below n0 h0 h
         | Inr st' \<Rightarrow> unchanged_below n0 h0 (heap_h st')"
proof (cases "queue_h st")
  case Nil
  with u show ?thesis by (simp add: bfs_step_h_def)
next
  case (Cons nd rest)
  let ?P = "\<lambda>acc :: error + string set \<times> node_h list \<times> heap.
              case acc of Inl e \<Rightarrow> True | Inr (vis, q, h) \<Rightarrow> unchanged_below n0 h0 h"
  have "?P (fold (expand_move_h rows cols nd) ms (Inr (visited_h st, rest, heap_h st)))" for ms
  proof (rule fold_invariant [where P = ?P])
    show "?P (Inr (visited_h st, rest, heap_h st))" using u by simp
  next
    fix m and a :: "error + string set \<times> node_h list \<times> heap"
    assume "?P a"
    then show "?P (expand_move_h rows cols nd m a)" by (rule expand_move_h_unchanged)
  qed
  then have fd: "unchanged_below n0 h0 hh"
    if "fold (expand_move_h rows cols nd) ms (Inr (visited_h st, rest, heap_h st))
          = Inr (vis, q, hh)" for ms vis q hh
    using that by (auto split: sum.splits prod.splits dest!: meta_spec [of _ ms])
  from u Cons show ?thesis
    by (auto simp: bfs_step_h_def split: sum.splits prod.splits dest: fd)
qed

lemma bfs_loop_h_rule:
  assumes "I st"
    and "\<And>s s'. I s \<Longrightarrow> bfs_step_h rows cols cap s = Inr s' \<Longrightarrow> I s'"
    and "\<And>s res. I s \<Longrightarrow> bfs_step_h rows cols cap s = Inl res \<Longrightarrow> Q res"
  shows "Q (bfs_loop_h rows cols cap st)"
  using assms
proof (induction rows cols cap st rule: bfs_loop_h.induct)
  case (1 rows cols cap st)
  show ?case
  proof (cases "bfs_step_h rows cols cap st")
    case (Inl res)
    with "1.prems"(3) [OF "1.prems"(1)] show ?thesis by (subst bfs_loop_h.simps) simp
  next
    case (Inr st')
    have "I st'" by (rule "1.prems"(2) [OF "1.prems"(1) Inr])
    from "1.IH" [OF Inr this "1.prems"(2,3)] Inr show ?thesis
      by (subst bfs_loop_h.simps) simp
  qed
qed

lemma solver_frame:
  assumes "findSolutionLimited_h h g cap = Inr (r, h')"
  shows "unchanged_below (next_free h) h h'"
proof -
  from assms obtain a0 as where g: "g = a0 # as"
    by (cases g) (auto simp: findSolutionLimited_h_def)
  obtain h1 g1 where cl: "cloneState_h h g = (h1, g1)" by (cases "cloneState_h h g") blast
  have u0: "unchanged_below (next_free h) h h" by (simp add: unchanged_below_def)
  from cloneState_h_unchanged [OF u0 cl] have u1: "unchanged_below (next_free h) h h1" by simp
  let ?st0 = "\<lparr>visited_h = {serializeGrid (deref h g)},
                  queue_h = [\<lparr>node_rows = g1, node_moves = []\<rparr>],
                  states_h = 0, heap_h = h1\<rparr>"
  let ?Q = "\<lambda>res :: run_h. case res of Inl e \<Rightarrow> True
                | Inr (r, h2) \<Rightarrow> unchanged_below (next_free h) h h2"
  have "?Q (bfs_loop_h (length g) (length (mem h a0)) cap ?st0)"
  proof (rule bfs_loop_h_rule [where I = "\<lambda>s. unchanged_below (next_free h) h (heap_h s)"])
    show "unchanged_below (next_free h) h (heap_h ?st0)" using u1 by simp
  next
    fix s s' assume "unchanged_below (next_free h) h (heap_h s)"
      and "bfs_step_h (length g) (length (mem h a0)) cap s = Inr s'"
    with bfs_step_h_unchanged [of "next_free h" h s "length g" "length (mem h a0)" cap]
    show "unchanged_below (next_free h) h (heap_h s')" by simp
  next
    fix s res assume "unchanged_below (next_free h) h (heap_h s)"
      and "bfs_step_h (length g) (length (mem h a0)) cap s = Inl res"
    with bfs_step_h_unchanged [of "next_free h" h s "length g" "length (mem h a0)" cap]
    show "?Q res" by (auto split: sum.splits prod.splits)
  qed
  with assms cl show ?thesis by (simp add: findSolutionLimited_h_def g)
qed

text \<open>The solver on the store computes what the solver on grid values computes.\<close>

lemma copy_row_id: "map (\<lambda>c. case c of Some x \<Rightarrow> Some x | None \<Rightarrow> None) row = row"
  by (induction row) (auto split: option.splits)

lemma fold_rel:
  assumes "rel a b" and "\<And>x a b. x \<in> set xs \<Longrightarrow> rel a b \<Longrightarrow> rel (f x a) (g x b)"
  shows "rel (fold f xs a) (fold g xs b)"
  using assms by (induction xs arbitrary: a b) auto

lemma cloneState_h_deref:
  assumes "allocated h g" and "cloneState_h h g = (h1, ng)"
  shows "deref h1 ng = deref h g \<and> distinct ng
         \<and> (\<forall>a\<in>set ng. next_free h \<le> a \<and> a < next_free h1)"
  using assms
proof (induction g arbitrary: h h1 ng)
  case Nil
  then show ?case by (simp add: deref_def)
next
  case (Cons a as)
  obtain h2 a' where al: "alloc_row h (map (\<lambda>c. case c of Some x \<Rightarrow> Some x | None \<Rightarrow> None) (mem h a)) = (h2, a')"
    by (cases "alloc_row h (map (\<lambda>c. case c of Some x \<Rightarrow> Some x | None \<Rightarrow> None) (mem h a))") blast
  obtain h3 as' where cl: "cloneState_h h2 as = (h3, as')"
    by (cases "cloneState_h h2 as") blast
  from Cons.prems(2) al cl have h1: "h1 = h3" and ng: "ng = a' # as'" by simp_all
  from al have a': "a' = next_free h" and nf2: "next_free h2 = Suc (next_free h)"
    and m2: "mem h2 = (mem h)(next_free h := mem h a)"
    by (auto simp: alloc_row_def copy_row_id)
  from Cons.prems(1) have a_lt: "a < next_free h" and as_lt: "\<forall>x\<in>set as. x < next_free h"
    by (simp_all add: allocated_def)
  then have al2: "allocated h2 as" by (auto simp: allocated_def nf2)
  from Cons.IH [OF al2 cl] have d3: "deref h3 as' = deref h2 as" and dist: "distinct as'"
    and rng: "\<forall>x\<in>set as'. next_free h2 \<le> x \<and> x < next_free h3" by simp_all
  from cloneState_h_frame [OF cl] have fr: "\<forall>b<next_free h2. mem h3 b = mem h2 b"
    and le: "next_free h2 \<le> next_free h3" by simp_all
  have "mem h3 a' = mem h a" using fr a' nf2 m2 by simp
  moreover have "deref h2 as = deref h as" using as_lt by (auto simp: deref_def m2)
  moreover have "a' \<notin> set as'" using rng a' nf2 by auto
  ultimately show ?case
    using d3 dist rng a' nf2 le unfolding h1 ng by (auto simp: deref_def)
qed

lemma deref_update:
  assumes "distinct ng" and "r < length ng"
  shows "deref (h\<lparr>mem := (mem h)(ng ! r := row)\<rparr>) ng = (deref h ng)[r := row]"
proof (rule nth_equalityI)
  show "length (deref (h\<lparr>mem := (mem h)(ng ! r := row)\<rparr>) ng) = length ((deref h ng)[r := row])"
    by (simp add: deref_def)
next
  fix k assume "k < length (deref (h\<lparr>mem := (mem h)(ng ! r := row)\<rparr>) ng)"
  then have k: "k < length ng" by (simp add: deref_def)
  with assms show "deref (h\<lparr>mem := (mem h)(ng ! r := row)\<rparr>) ng ! k = (deref h ng)[r := row] ! k"
    by (auto simp: deref_def nth_list_update nth_eq_iff_index_eq)
qed

lemma removeId_cell_sim:
  assumes d: "distinct ng" and sim: "row_sim ng h1 a b"
  shows "row_sim ng h1 (removeId_cell_h i ng r c a) (removeId_cell i r c b)"
proof (cases a)
  case (Inl e)
  with sim show ?thesis by (simp add: row_sim_def removeId_cell_h_def removeId_cell_def)
next
  case (Inr h)
  with sim have b: "b = Inr (deref h ng)" and nf: "next_free h = next_free h1"
    and out: "\<forall>x. x \<notin> set ng \<longrightarrow> mem h x = mem h1 x"
    by (simp_all add: row_sim_def)
  show ?thesis
  proof (cases "r < length ng")
    case False
    then show ?thesis
      by (simp add: Inr b row_sim_def removeId_cell_h_def removeId_cell_def cell_at_def idx_def
            deref_def)
  next
    case True
    then have mem: "ng ! r \<in> set ng" by simp
    have at: "deref h ng ! r = mem h (ng ! r)" using True by (simp add: deref_def)
    have upd: "deref (h\<lparr>mem := (mem h)(ng ! r := (mem h (ng ! r))[c := None])\<rparr>) ng
                 = (deref h ng)[r := (deref h ng ! r)[c := None]]"
      using deref_update [OF d True] at by simp
    show ?thesis
      using True mem nf out upd at
      by (auto simp: Inr b row_sim_def removeId_cell_h_def removeId_cell_def cell_at_def idx_def
            deref_def split: option.splits)
  qed
qed

lemma unchanged_below_trans:
  "unchanged_below n0 h0 h \<Longrightarrow> unchanged_below (next_free h) h h' \<Longrightarrow> unchanged_below n0 h0 h'"
  by (auto simp: unchanged_below_def)

lemma deref_unchanged:
  "unchanged_below n h h' \<Longrightarrow> \<forall>a\<in>set g. a < n \<Longrightarrow> deref h' g = deref h g"
  by (auto simp: unchanged_below_def deref_def)

lemma removeId_h_sim:
  assumes al: "allocated h g"
  shows "case removeId_h rows cols h g i of
           Inl e \<Rightarrow> removeId rows cols (deref h g) i = Inl e
         | Inr (h', ng) \<Rightarrow> removeId rows cols (deref h g) i = Inr (deref h' ng)
                            \<and> unchanged_below (next_free h) h h' \<and> allocated h' ng"
proof -
  obtain h1 ng where cl: "cloneState_h h g = (h1, ng)" by (cases "cloneState_h h g") blast
  from cloneState_h_deref [OF al cl] have d1: "deref h1 ng = deref h g" and dist: "distinct ng"
    and rng: "\<forall>a\<in>set ng. next_free h \<le> a \<and> a < next_free h1" by simp_all
  from cloneState_h_frame [OF cl] have fr: "\<forall>b<next_free h. mem h1 b = mem h b"
    and le: "next_free h \<le> next_free h1" by simp_all
  let ?fh = "fold (\<lambda>r acc. fold (\<lambda>c. removeId_cell_h i ng r c) [0..<cols] acc) [0..<rows] (Inr h1)"
  let ?fp = "fold (\<lambda>r acc. fold (\<lambda>c. removeId_cell i r c) [0..<cols] acc) [0..<rows]
               (Inr (deref h1 ng))"
  have sim: "row_sim ng h1 ?fh ?fp"
  proof (rule fold_rel [where rel = "row_sim ng h1"])
    show "row_sim ng h1 (Inr h1) (Inr (deref h1 ng))" by (simp add: row_sim_def)
  next
    fix r a b assume "row_sim ng h1 a b"
    then show "row_sim ng h1 (fold (removeId_cell_h i ng r) [0..<cols] a)
                 (fold (removeId_cell i r) [0..<cols] b)"
    proof (rule fold_rel [where rel = "row_sim ng h1"])
      fix c a b assume "row_sim ng h1 a b"
      then show "row_sim ng h1 (removeId_cell_h i ng r c a) (removeId_cell i r c b)"
        by (rule removeId_cell_sim [OF dist])
    qed
  qed
  have pure: "removeId rows cols (deref h g) i = ?fp"
    by (simp add: removeId_def cloneGrid_id d1)
  show ?thesis
  proof (cases ?fh)
    case (Inl e)
    with sim pure cl show ?thesis by (simp add: removeId_h_def row_sim_def)
  next
    case (Inr h2)
    with sim have fp: "?fp = Inr (deref h2 ng)" and nf: "next_free h2 = next_free h1"
      and out: "\<forall>x. x \<notin> set ng \<longrightarrow> mem h2 x = mem h1 x"
      by (simp_all add: row_sim_def)
    have "mem h2 x = mem h x" if "x < next_free h" for x
    proof -
      from that rng have "x \<notin> set ng" by auto
      with out have "mem h2 x = mem h1 x" by simp
      with fr that show ?thesis by simp
    qed
    then have "unchanged_below (next_free h) h h2"
      using nf le by (simp add: unchanged_below_def)
    moreover have "allocated h2 ng" using rng nf by (simp add: allocated_def)
    ultimately show ?thesis using Inr fp pure cl by (simp add: removeId_h_def)
  qed
qed

lemma abs_node_unchanged:
  "unchanged_below (next_free h) h h' \<Longrightarrow> allocated h (node_rows n) \<Longrightarrow> abs_node h' n = abs_node h n"
  by (simp add: abs_node_def allocated_def deref_unchanged)

lemma allocated_mono:
  "unchanged_below (next_free h) h h' \<Longrightarrow> allocated h g \<Longrightarrow> allocated h' g"
  by (auto simp: allocated_def unchanged_below_def)

lemma expand_move_sim:
  assumes nd: "allocated h0 (node_rows nd)" and sim: "queue_sim h0 a b"
  shows "queue_sim h0 (expand_move_h rows cols nd m a) (expand_move rows cols (abs_node h0 nd) m b)"
proof (cases a)
  case (Inl e)
  with sim show ?thesis by (simp add: queue_sim_def expand_move_h_def expand_move_def)
next
  case (Inr t)
  obtain vis qh h where t: "t = (vis, qh, h)" by (cases t) auto
  from sim Inr t have b: "b = Inr (vis, map (abs_node h) qh)"
    and u: "unchanged_below (next_free h0) h0 h"
    and qal: "\<forall>n\<in>set qh. allocated h (node_rows n)"
    by (simp_all add: queue_sim_def)
  from nd have lt: "\<forall>a\<in>set (node_rows nd). a < next_free h0" by (simp add: allocated_def)
  have g: "deref h (node_rows nd) = deref h0 (node_rows nd)"
    by (rule deref_unchanged [OF u lt])
  from u lt have ndh: "allocated h (node_rows nd)"
    by (auto simp: allocated_def unchanged_below_def)
  show ?thesis
  proof (cases "cell_at (deref h0 (node_rows nd)) (fst m) (snd m)")
    case (Inl e)
    then show ?thesis
      by (simp add: Inr t b g queue_sim_def expand_move_h_def expand_move_def abs_node_def)
  next
    case cell: (Inr y)
    show ?thesis
    proof (cases y)
      case None
      with cell show ?thesis
        by (simp add: Inr t b g queue_sim_def expand_move_h_def expand_move_def abs_node_def)
    next
      case (Some x)
      note rs = removeId_h_sim [OF ndh, of rows cols "cell_id x"]
      show ?thesis
      proof (cases "removeId_h rows cols h (node_rows nd) (cell_id x)")
        case (Inl e)
        with rs cell Some show ?thesis
          by (simp add: Inr t b g queue_sim_def expand_move_h_def expand_move_def abs_node_def)
      next
        case rm: (Inr p)
        obtain h' ng where p: "p = (h', ng)" by (cases p) auto
        from rs rm p have pr: "removeId rows cols (deref h0 (node_rows nd)) (cell_id x) = Inr (deref h' ng)"
          and u': "unchanged_below (next_free h) h h'" and ngal: "allocated h' ng"
          by (simp_all add: g)
        have u2: "unchanged_below (next_free h0) h0 h'" by (rule unchanged_below_trans [OF u u'])
        have old: "map (abs_node h') qh = map (abs_node h) qh"
          using qal abs_node_unchanged [OF u'] by simp
        have qal': "\<forall>n\<in>set qh. allocated h' (node_rows n)"
          using qal allocated_mono [OF u'] by blast
        show ?thesis
          using cell Some rm p pr u2 old qal' ngal
          by (simp add: Inr t b g queue_sim_def expand_move_h_def expand_move_def abs_node_def)
      qed
    qed
  qed
qed

lemma bfs_step_sim:
  assumes sim: "state_sim sh s"
  shows "case bfs_step_h rows cols cap sh of
           Inl (Inl e) \<Rightarrow> bfs_step rows cols cap s = Inl (Inl e)
         | Inl (Inr (r, h)) \<Rightarrow> (\<exists>n. bfs_step rows cols cap s = Inl (Inr (r, n)))
         | Inr sh' \<Rightarrow> (\<exists>s'. bfs_step rows cols cap s = Inr s' \<and> state_sim sh' s')"
proof (cases "queue_h sh")
  case Nil
  with sim have "queue s = []" by (simp add: state_sim_def)
  with Nil show ?thesis by (simp add: bfs_step_h_def bfs_step_def)
next
  case (Cons nd rest)
  let ?H = "heap_h sh"
  from sim Cons have q: "queue s = abs_node ?H nd # map (abs_node ?H) rest"
    and st: "states_h sh = states s" and vis: "visited_h sh = visited s"
    and nd: "allocated ?H (node_rows nd)"
    and rest: "\<forall>n\<in>set rest. allocated ?H (node_rows n)"
    by (auto simp: state_sim_def)
  have g: "node_grid (abs_node ?H nd) = deref ?H (node_rows nd)"
    and sq: "node_seq (abs_node ?H nd) = node_moves nd"
    by (simp_all add: abs_node_def)
  show ?thesis
  proof (cases "int (states_h sh + 1) > cap")
    case True
    with Cons q st show ?thesis by (simp add: bfs_step_h_def bfs_step_def)
  next
    case small: False
    show ?thesis
    proof (cases "allEmpty (deref ?H (node_rows nd))")
      case True
      with small Cons q st g sq show ?thesis by (simp add: bfs_step_h_def bfs_step_def)
    next
      case ne: False
      show ?thesis
      proof (cases "find_moves rows cols (deref ?H (node_rows nd))")
        case (Inl e)
        with ne small Cons q st g show ?thesis by (simp add: bfs_step_h_def bfs_step_def)
      next
        case fm: (Inr ms)
        let ?fh = "fold (expand_move_h rows cols nd) ms (Inr (visited_h sh, rest, ?H))"
        let ?fp = "fold (expand_move rows cols (abs_node ?H nd)) ms
                     (Inr (visited s, map (abs_node ?H) rest))"
        have qs: "queue_sim ?H ?fh ?fp"
        proof (rule fold_rel [where rel = "queue_sim ?H"])
          show "queue_sim ?H (Inr (visited_h sh, rest, ?H))
                  (Inr (visited s, map (abs_node ?H) rest))"
            using rest vis by (simp add: queue_sim_def unchanged_below_def)
        next
          fix m a b assume "queue_sim ?H a b"
          then show "queue_sim ?H (expand_move_h rows cols nd m a)
                       (expand_move rows cols (abs_node ?H nd) m b)"
            by (rule expand_move_sim [OF nd])
        qed
        have hstep: "bfs_step_h rows cols cap sh =
                (case ?fh of Inl e \<Rightarrow> Inl (Inl e)
                 | Inr (vis, q, h') \<Rightarrow>
                     Inr \<lparr>visited_h = vis, queue_h = q, states_h = states_h sh + 1, heap_h = h'\<rparr>)"
          using ne small Cons fm by (simp add: bfs_step_h_def)
        have pstep: "bfs_step rows cols cap s =
                (case ?fp of Inl e \<Rightarrow> Inl (Inl e)
                 | Inr (vis, q) \<Rightarrow> Inr \<lparr>visited = vis, queue = q, states = states s + 1\<rparr>)"
          using ne small q st g fm by (simp add: bfs_step_def)
        show ?thesis
        proof (cases ?fh)
          case (Inl e)
          with qs have "?fp = Inl e" by (simp add: queue_sim_def)
          with Inl hstep pstep show ?thesis by simp
        next
          case (Inr t)
          obtain vis' q' h' where t: "t = (vis', q', h')" by (cases t) auto
          with qs Inr have fp: "?fp = Inr (vis', map (abs_node h') q')"
            and al: "\<forall>n\<in>set q'. allocated h' (node_rows n)"
            by (simp_all add: queue_sim_def)
          have "state_sim \<lparr>visited_h = vis', queue_h = q', states_h = states_h sh + 1, heap_h = h'\<rparr>
                  \<lparr>visited = vis', queue = map (abs_node h') q', states = states s + 1\<rparr>"
            using al st by (simp add: state_sim_def)
          with Inr t fp hstep pstep show ?thesis by simp
        qed
      qed
    qed
  qed
qed

lemma bfs_loop_sim:
  assumes "state_sim sh s"
  shows "case bfs_loop_h rows cols cap sh of
           Inl e \<Rightarrow> bfs_loop rows cols cap s = Inl e
         | Inr (r, h) \<Rightarrow> (\<exists>n. bfs_loop rows cols cap s = Inr (r, n))"
  using assms
proof (induction rows cols cap sh arbitrary: s rule: bfs_loop_h.induct)
  case (1 rows cols cap sh)
  note sim = bfs_step_sim [OF "1.prems", of rows cols cap]
  show ?case
  proof (cases "bfs_step_h rows cols cap sh")
    case (Inl res)
    then have lh: "bfs_loop_h rows cols cap sh = res"
      by (subst bfs_loop_h.simps) simp
    show ?thesis
    proof (cases res)
      case e: (Inl e)
      with Inl sim have "bfs_step rows cols cap s = Inl (Inl e)" by simp
      then have "bfs_loop rows cols cap s = Inl e" by (subst bfs_loop.simps) simp
      with e show ?thesis by (simp add: lh)
    next
      case (Inr p)
      obtain r h where p: "p = (r, h)" by (cases p) auto
      with Inl Inr sim obtain n where "bfs_step rows cols cap s = Inl (Inr (r, n))" by auto
      then have "bfs_loop rows cols cap s = Inr (r, n)" by (subst bfs_loop.simps) simp
      with Inr p show ?thesis by (simp add: lh)
    qed
  next
    case (Inr sh')
    then have lh: "bfs_loop_h rows cols cap sh = bfs_loop_h rows cols cap sh'"
      by (subst bfs_loop_h.simps) simp
    from Inr sim obtain s' where s': "bfs_step rows cols cap s = Inr s'" "state_sim sh' s'"
      by auto
    from s'(1) have lp: "bfs_loop rows cols cap s = bfs_loop rows cols cap s'"
      by (subst bfs_loop.simps) simp
    from "1.IH" [OF Inr s'(2)] show ?thesis by (simp only: lh lp)
  qed
qed

lemma solver_refines:
  assumes "allocated h g"
  shows "case findSolutionLimited_h h g cap of
           Inl e \<Rightarrow> findSolutionLimited (deref h g) cap = Inl e
         | Inr (r, h') \<Rightarrow> findSolutionLimited (deref h g) cap = Inr r"
proof (cases g)
  case Nil
  then show ?thesis
    by (simp add: findSolutionLimited_h_def findSolutionLimited_def findSolutionLimited_run_def
          deref_def)
next
  case (Cons a0 as)
  obtain h1 g1 where cl: "cloneState_h h g = (h1, g1)" by (cases "cloneState_h h g") blast
  from cloneState_h_deref [OF assms cl] have d1: "deref h1 g1 = deref h g"
    and rng: "\<forall>a\<in>set g1. next_free h \<le> a \<and> a < next_free h1" by simp_all
  let ?sh = "\<lparr>visited_h = {serializeGrid (deref h g)},
                  queue_h = [\<lparr>node_rows = g1, node_moves = []\<rparr>],
                  states_h = 0, heap_h = h1\<rparr>"
  let ?s = "\<lparr>visited = {serializeGrid (deref h g)},
             queue = [\<lparr>node_grid = cloneGrid (deref h g), node_seq = []\<rparr>], states = 0\<rparr>"
  have "state_sim ?sh ?s"
    using d1 rng by (simp add: state_sim_def abs_node_def allocated_def cloneGrid_id)
  note sim = bfs_loop_sim [OF this, of "length g" "length (mem h a0)" cap]
  have hrun: "bfs_loop_h (length g) (length (mem h a0)) cap ?sh = findSolutionLimited_h h g cap"
    using cl by (simp add: findSolutionLimited_h_def Cons)
  have prun: "findSolutionLimited_run (deref h g) cap
                = bfs_loop (length g) (length (mem h a0)) cap ?s"
    by (simp add: findSolutionLimited_run_def Cons deref_def)
  from sim have sim': "case findSolutionLimited_h h g cap of
           Inl e \<Rightarrow> bfs_loop (length g) (length (mem h a0)) cap ?s = Inl e
         | Inr (r, h') \<Rightarrow> (\<exists>n. bfs_loop (length g) (length (mem h a0)) cap ?s = Inr (r, n))"
    by (simp only: hrun)
  show ?thesis
  proof (cases "findSolutionLimited_h h g cap")
    case (Inl e)
    with sim' have "findSolutionLimited_run (deref h g) cap = Inl e" by (simp add: prun)
    with Inl show ?thesis by (simp add: findSolutionLimited_def)
  next
    case (Inr p)
    obtain r h' where p: "p = (r, h')" by (cases p) auto
    with Inr sim' obtain n where "findSolutionLimited_run (deref h g) cap = Inr (r, n)"
      by (auto simp: prun)
    with Inr p show ?thesis by (simp add: findSolutionLimited_def)
  qed
qed

text \<open>
  Claim C9: \<open>findSolutionLimited\<close> is a pure query with respect to its input. Called on a
  start grid with at least one row whose row arrays are in the store, it returns the value
  the solver on grid values computes, and when it has returned every row array that
  existed before the call, and so every cell of the start grid, holds exactly the value it
  held before: all assignments of the search go to rows that \<open>cloneState\<close> allocated
  during the call.
\<close>

theorem C9_solver_keeps_start_grid:
  assumes "allocated h g" and "g \<noteq> []"
  shows "\<exists>r h'. findSolutionLimited_h h g cap = Inr (r, h')
           \<and> findSolutionLimited (deref h g) cap = Inr r
           \<and> deref h' g = deref h g \<and> unchanged_below (next_free h) h h'"
proof -
  from assms(2) obtain row0 rest where "deref h g = row0 # rest"
    by (cases g) (auto simp: deref_def)
  from run_result [OF this, of cap] obtain r0 where
    pure: "findSolutionLimited (deref h g) cap = Inr r0"
    by (auto simp: findSolutionLimited_def)
  note ref = solver_refines [OF assms(1), of cap]
  show ?thesis
  proof (cases "findSolutionLimited_h h g cap")
    case (Inl e)
    with ref pure show ?thesis by simp
  next
    case (Inr p)
    obtain r h' where p: "p = (r, h')" by (cases p) auto
    with Inr have run: "findSolutionLimited_h h g cap = Inr (r, h')" by simp
    from solver_frame [OF run] have u: "unchanged_below (next_free h) h h'" .
    from assms(1) have "\<forall>a\<in>set g. a < next_free h" by (simp add: allocated_def)
    with u have "deref h' g = deref h g" by (rule deref_unchanged)
    moreover from ref run have "findSolutionLimited (deref h g) cap = Inr r" by simp
    ultimately show ?thesis using run u by blast
  qed
qed

theorem C9_solver_keeps_start_grid_witness:
  "allocated (store_of single_piece_grid) [0, 1] \<and> [0, 1] \<noteq> ([] :: nat list)
   \<and> deref (store_of single_piece_grid) [0, 1] = single_piece_grid
   \<and> (\<exists>h'. findSolutionLimited_h (store_of single_piece_grid) [0, 1] 20000
               = Inr (Some [(0, 0)], h')
            \<and> deref h' [0, 1] = single_piece_grid)"
proof -
  have al: "allocated (store_of single_piece_grid) [0, 1]"
    by (simp add: allocated_def store_of_def single_piece_grid_def)
  have ne: "[0, 1] \<noteq> ([] :: nat list)" by simp
  have start: "deref (store_of single_piece_grid) [0, 1] = single_piece_grid"
    by (simp add: deref_def store_of_def single_piece_grid_def)
  have pure: "findSolutionLimited single_piece_grid 20000 = Inr (Some [(0, 0)])"
    by code_simp
  from C9_solver_keeps_start_grid [OF al ne, of 20000] obtain r h'
    where "findSolutionLimited_h (store_of single_piece_grid) [0, 1] 20000 = Inr (r, h')"
      and "findSolutionLimited (deref (store_of single_piece_grid) [0, 1]) 20000 = Inr r"
      and "deref h' [0, 1] = deref (store_of single_piece_grid) [0, 1]"
    by blast
  with start pure have "findSolutionLimited_h (store_of single_piece_grid) [0, 1] 20000
                          = Inr (Some [(0, 0)], h')"
    and "deref h' [0, 1] = single_piece_grid"
    by simp_all
  with al ne start show ?thesis by blast
qed

end
